theory Spec2Isabelle
  imports Main "HOL-Library.Sublist" "HOL-Library.Product_Lexorder"
begin

section \<open>Text primitives of the Python source\<close>

text \<open>
  Source texts are Python \<open>str\<close> values. They are modelled as \<open>string\<close>, a \<open>char\<close>
  standing for the code point of the same number (code points below 256). The character
  classes below are those of Python's \<open>str.isspace\<close> and of the \<open>re\<close> module's
  \<open>\s\<close>, \<open>\d\<close> and \<open>\w\<close> on that range.
\<close>

definition is_space :: "char \<Rightarrow> bool" where
  "is_space c = (of_char c \<in> {9::nat, 10, 11, 12, 13, 28, 29, 30, 31, 32, 133, 160})"

definition is_digit :: "char \<Rightarrow> bool" where
  "is_digit c = (let n = (of_char c :: nat) in 48 \<le> n \<and> n \<le> 57)"

definition is_word :: "char \<Rightarrow> bool" where
  "is_word c = (let n = (of_char c :: nat) in
     (48 \<le> n \<and> n \<le> 57) \<or> (65 \<le> n \<and> n \<le> 90) \<or> n = 95 \<or> (97 \<le> n \<and> n \<le> 122) \<or>
     n = 170 \<or> n = 178 \<or> n = 179 \<or> n = 181 \<or> n = 185 \<or> n = 186 \<or>
     (188 \<le> n \<and> n \<le> 190) \<or> (192 \<le> n \<and> n \<le> 214) \<or> (216 \<le> n \<and> n \<le> 246) \<or>
     248 \<le> n)"

text \<open>\<open>code.split('\n')\<close>: never empty; the empty text gives one empty line.\<close>

fun split_nl :: "string \<Rightarrow> string list" where
  "split_nl [] = [[]]"
| "split_nl (c # cs) =
     (if c = CHR 0x0A then [] # split_nl cs
      else (case split_nl cs of [] \<Rightarrow> [[c]] | l # ls \<Rightarrow> (c # l) # ls))"

text \<open>\<open>'\n'.join(lines)\<close>.\<close>

fun join_nl :: "string list \<Rightarrow> string" where
  "join_nl [] = []"
| "join_nl [l] = l"
| "join_nl (l # m # ls) = l @ CHR 0x0A # join_nl (m # ls)"

text \<open>\<open>code.count(c)\<close> for a one-character argument.\<close>

definition count_chr :: "string \<Rightarrow> char \<Rightarrow> nat" where
  "count_chr s c = length (filter (\<lambda>d. d = c) s)"

section \<open>Rule Engine: closing braces at the end of the file\<close>

text \<open>
  \<^verbatim>\<open>
  def fix_eof_brace(code):
      lines = code.split('\n')
      open_count = code.count('{') - code.count('}')
      if open_count > 0:
          for _ in range(open_count):
              lines.append('}')
      return '\n'.join(lines)
  \<close>
\<close>

definition fix_eof_brace :: "string \<Rightarrow> string" where
  "fix_eof_brace code =
     (let lines = split_nl code;
          open_count = int (count_chr code (CHR ''{'')) - int (count_chr code (CHR ''}''))
      in if open_count > 0
         then join_nl (lines @ replicate (nat open_count) ''}'')
         else join_nl lines)"

text \<open>
  The entry of the Java rule table:
  \<^verbatim>\<open>r"reached end of file while parsing": lambda m, code: fix_eof_brace(code)\<close>.
  The handler ignores the match object.
\<close>

definition rule_reached_end_of_file :: "string \<Rightarrow> string \<Rightarrow> string" where
  "rule_reached_end_of_file m code = fix_eof_brace code"


section \<open>More string primitives\<close>

text \<open>\<open>s.rstrip()\<close>, \<open>s.lstrip()\<close> and \<open>s.strip()\<close> with no argument remove whitespace.\<close>

definition rstrip :: "string \<Rightarrow> string" where
  "rstrip s = rev (dropWhile is_space (rev s))"

definition lstrip :: "string \<Rightarrow> string" where
  "lstrip s = dropWhile is_space s"

definition strip :: "string \<Rightarrow> string" where
  "strip s = rstrip (lstrip s)"

text \<open>\<open>s.endswith(t)\<close> and \<open>s.startswith(t)\<close>.\<close>

definition endswith :: "string \<Rightarrow> string \<Rightarrow> bool" where
  "endswith s t = prefix (rev t) (rev s)"

definition startswith :: "string \<Rightarrow> string \<Rightarrow> bool" where
  "startswith s t = prefix t s"

text \<open>\<open>s.find(sub)\<close>: the lowest index where \<open>sub\<close> occurs, or \<open>-1\<close>.\<close>

fun find_from :: "string \<Rightarrow> string \<Rightarrow> nat \<Rightarrow> int" where
  "find_from sub [] i = (if sub = [] then int i else -1)"
| "find_from sub (c # cs) i = (if prefix sub (c # cs) then int i else find_from sub cs (Suc i))"

definition py_find :: "string \<Rightarrow> string \<Rightarrow> int" where
  "py_find s sub = find_from sub s 0"

text \<open>Auxiliary notions for the proofs: an occurrence of \<open>sub\<close> at index \<open>j\<close>, the comment
  markers of \<open>add_semicolon_at_line\<close>, and what its marker loop computes.\<close>

definition occurs_at :: "string \<Rightarrow> string \<Rightarrow> nat \<Rightarrow> bool" where
  "occurs_at sub s j \<longleftrightarrow> j \<le> length s \<and> prefix sub (drop j s)"

definition markers :: "string set" where
  "markers = {''//'', ''/*'', ''#''}"

definition first_marker :: "string set \<Rightarrow> string \<Rightarrow> int \<Rightarrow> bool" where
  "first_marker M s cp \<longleftrightarrow>
     (cp = -1 \<and> (\<forall>m\<in>M. \<forall>j. \<not> occurs_at m s j)) \<or>
     (\<exists>q. cp = int q \<and> (\<exists>m\<in>M. occurs_at m s q) \<and> (\<forall>m\<in>M. \<forall>j<q. \<not> occurs_at m s j))"

section \<open>Rule Engine: statement terminator at a line\<close>

text \<open>
  \<^verbatim>\<open>
  def add_semicolon_at_line(code, line_num):
      if not line_num:
          return code
      lines = code.split('\n')
      if 0 < line_num <= len(lines):
          line = lines[line_num - 1].rstrip()
          if line.endswith(';') or line.endswith('{') or line.endswith('}'):
              return code
          comment_pos = -1
          for marker in ['//', '/*', '#']:
              pos = line.find(marker)
              if pos != -1 and (comment_pos == -1 or pos < comment_pos):
                  comment_pos = pos
          if comment_pos > 0:
              before = line[:comment_pos].rstrip()
              comment = line[comment_pos:]
              if before and not before.endswith(';'):
                  lines[line_num - 1] = before + ';  ' + comment
          else:
              lines[line_num - 1] = line + ';'
      return '\n'.join(lines)
  \<close>
  The line number is \<open>None\<close> or an unbounded integer.
\<close>

definition marker_step :: "string \<Rightarrow> string \<Rightarrow> int \<Rightarrow> int" where
  "marker_step line marker comment_pos =
     (let pos = py_find line marker
      in if pos \<noteq> -1 \<and> (comment_pos = -1 \<or> pos < comment_pos) then pos else comment_pos)"

definition comment_pos_of :: "string \<Rightarrow> int" where
  "comment_pos_of line = fold (marker_step line) [''//'', ''/*'', ''#''] (-1)"

definition add_semicolon_at_line :: "string \<Rightarrow> int option \<Rightarrow> string" where
  "add_semicolon_at_line code line_num =
     (case line_num of
        None \<Rightarrow> code
      | Some n \<Rightarrow>
          if n = 0 then code
          else
            let lines = split_nl code in
            if 0 < n \<and> n \<le> int (length lines) then
              let line = rstrip (lines ! (nat n - 1)) in
              if endswith line '';'' \<or> endswith line ''{'' \<or> endswith line ''}'' then code
              else
                let comment_pos = comment_pos_of line in
                if comment_pos > 0 then
                  let before_part = rstrip (take (nat comment_pos) line);
                      comment = drop (nat comment_pos) line
                  in if before_part \<noteq> [] \<and> \<not> endswith before_part '';''
                     then join_nl (lines[nat n - 1 := before_part @ '';  '' @ comment])
                     else join_nl lines
                else join_nl (lines[nat n - 1 := line @ '';''])
            else join_nl lines)"

section \<open>Regular expressions of the source\<close>

text \<open>
  The source drives its text handling by Python \<open>re\<close> patterns. Each pattern used here is a
  sequence of the items below. A repetition \<open>Plus\<close> or \<open>Star\<close> takes the longest run of
  characters of its class; in every pattern of the source the item after a repetition cannot
  start with a character of that class (or the repetition is last, or it is followed by
  \<open>\b\<close> or \<open>$\<close>, which fail again after every shorter run), so the longest run is the
  only one the backtracking matcher of \<open>re\<close> can succeed with.
  Every repetition records the text it matched (the groups of the pattern are among them).
\<close>

datatype item =
    Lit string                  \<comment> \<open>literal text\<close>
  | Plus "char \<Rightarrow> bool"        \<comment> \<open>\<open>c+\<close> for a character class \<open>c\<close>\<close>
  | Star "char \<Rightarrow> bool"        \<comment> \<open>\<open>c*\<close>\<close>
  | One "char \<Rightarrow> bool"         \<comment> \<open>one character of a class\<close>
  | Boundary                    \<comment> \<open>\<open>\b\<close>\<close>
  | LineStart                   \<comment> \<open>\<open>^\<close> under \<open>re.MULTILINE\<close>\<close>
  | RestOfLineToEnd             \<comment> \<open>\<open>.*$\<close> without \<open>re.MULTILINE\<close>\<close>

definition word_opt :: "char option \<Rightarrow> bool" where
  "word_opt c = (case c of None \<Rightarrow> False | Some d \<Rightarrow> is_word d)"

definition last_or :: "char option \<Rightarrow> string \<Rightarrow> char option" where
  "last_or prev m = (if m = [] then prev else Some (last m))"

definition head_opt :: "string \<Rightarrow> char option" where
  "head_opt s = (case s of [] \<Rightarrow> None | c # _ \<Rightarrow> Some c)"

text \<open>
  \<open>match_items its prev s\<close>: match the pattern at the start of \<open>s\<close>, where \<open>prev\<close> is the
  character before \<open>s\<close> in the whole text. The result is the recorded texts and the
  length of the match.
\<close>

primrec match_items :: "item list \<Rightarrow> char option \<Rightarrow> string \<Rightarrow> (string list \<times> nat) option" where
  "match_items [] prev s = Some ([], 0)"
| "match_items (it # its) prev s =
     (case it of
        Lit l \<Rightarrow>
          if prefix l s
          then (case match_items its (last_or prev l) (drop (length l) s) of
                  None \<Rightarrow> None
                | Some (caps, n) \<Rightarrow> Some (caps, length l + n))
          else None
      | Plus p \<Rightarrow>
          if takeWhile p s = [] then None
          else (case match_items its (last_or prev (takeWhile p s)) (dropWhile p s) of
                  None \<Rightarrow> None
                | Some (caps, n) \<Rightarrow> Some (takeWhile p s # caps, length (takeWhile p s) + n))
      | Star p \<Rightarrow>
          (case match_items its (last_or prev (takeWhile p s)) (dropWhile p s) of
             None \<Rightarrow> None
           | Some (caps, n) \<Rightarrow> Some (takeWhile p s # caps, length (takeWhile p s) + n))
      | One p \<Rightarrow>
          (case s of
             [] \<Rightarrow> None
           | c # cs \<Rightarrow>
               if p c
               then (case match_items its (Some c) cs of
                       None \<Rightarrow> None
                     | Some (caps, n) \<Rightarrow> Some (caps, Suc n))
               else None)
      | Boundary \<Rightarrow>
          if word_opt prev \<noteq> word_opt (head_opt s) then match_items its prev s else None
      | LineStart \<Rightarrow>
          if prev = None \<or> prev = Some (CHR 0x0A) then match_items its prev s else None
      | RestOfLineToEnd \<Rightarrow>
          if dropWhile (\<lambda>c. c \<noteq> CHR 0x0A) s = [] \<or> dropWhile (\<lambda>c. c \<noteq> CHR 0x0A) s = [CHR 0x0A]
          then (case match_items its (last_or prev (takeWhile (\<lambda>c. c \<noteq> CHR 0x0A) s))
                       (dropWhile (\<lambda>c. c \<noteq> CHR 0x0A) s) of
                  None \<Rightarrow> None
                | Some (caps, n) \<Rightarrow> Some (caps, length (takeWhile (\<lambda>c. c \<noteq> CHR 0x0A) s) + n))
          else None)"

text \<open>
  \<open>re.finditer\<close>: the matches from left to right, each search starting where the last
  match ended. \<open>skip\<close> counts the characters still covered by the last match. None of the
  patterns of the source matches the empty text.
\<close>

fun finditer :: "item list \<Rightarrow> char option \<Rightarrow> string \<Rightarrow> nat \<Rightarrow> (string \<times> string list) list" where
  "finditer its prev [] skip = []"
| "finditer its prev (c # cs) skip =
     (if skip > 0 then finditer its (Some c) cs (skip - 1)
      else (case match_items its prev (c # cs) of
              None \<Rightarrow> finditer its (Some c) cs 0
            | Some (caps, n) \<Rightarrow> (take n (c # cs), caps) # finditer its (Some c) cs (n - 1)))"

definition re_finditer :: "item list \<Rightarrow> string \<Rightarrow> (string \<times> string list) list" where
  "re_finditer its s = finditer its None s 0"

text \<open>\<open>re.findall\<close> for a pattern without groups, and \<open>m.group(k)\<close> over \<open>re.finditer\<close>
  where the group is the \<open>i\<close>-th recorded text.\<close>

definition re_findall :: "item list \<Rightarrow> string \<Rightarrow> string list" where
  "re_findall its s = map fst (re_finditer its s)"

definition re_groups :: "item list \<Rightarrow> nat \<Rightarrow> string \<Rightarrow> string list" where
  "re_groups its i s = map (\<lambda>m. snd m ! i) (re_finditer its s)"

text \<open>\<open>re.search\<close>: the leftmost match, as the recorded texts.\<close>

definition re_search :: "item list \<Rightarrow> string \<Rightarrow> string list option" where
  "re_search its s = (case re_finditer its s of [] \<Rightarrow> None | m # _ \<Rightarrow> Some (snd m))"

text \<open>\<open>re.sub(pattern, repl, s)\<close>, the replacement computed from the recorded texts.\<close>

fun sub_from :: "item list \<Rightarrow> (string list \<Rightarrow> string) \<Rightarrow> char option \<Rightarrow> string \<Rightarrow> nat \<Rightarrow> string" where
  "sub_from its repl prev [] skip = []"
| "sub_from its repl prev (c # cs) skip =
     (if skip > 0 then sub_from its repl (Some c) cs (skip - 1)
      else (case match_items its prev (c # cs) of
              None \<Rightarrow> c # sub_from its repl (Some c) cs 0
            | Some (caps, n) \<Rightarrow> repl caps @ sub_from its repl (Some c) cs (n - 1)))"

definition re_sub :: "item list \<Rightarrow> (string list \<Rightarrow> string) \<Rightarrow> string \<Rightarrow> string" where
  "re_sub its repl s = sub_from its repl None s 0"

text \<open>\<open>re.split(pattern, s)[0]\<close>: the text before the leftmost match, or all of it.\<close>

fun split_head :: "item list \<Rightarrow> char option \<Rightarrow> string \<Rightarrow> string" where
  "split_head its prev [] = []"
| "split_head its prev (c # cs) =
     (case match_items its prev (c # cs) of
        None \<Rightarrow> c # split_head its (Some c) cs
      | Some _ \<Rightarrow> [])"

definition re_split0 :: "item list \<Rightarrow> string \<Rightarrow> string" where
  "re_split0 its s = split_head its None s"

text \<open>\<open>sub in s\<close> and \<open>s.replace(old, new, 1)\<close>.\<close>

definition contains :: "string \<Rightarrow> string \<Rightarrow> bool" where
  "contains s sub = (py_find s sub \<noteq> -1)"

definition replace_first :: "string \<Rightarrow> string \<Rightarrow> string \<Rightarrow> string" where
  "replace_first s old new =
     (let p = py_find s old
      in if p = -1 then s else take (nat p) s @ new @ drop (nat p + length old) s)"

text \<open>\<open>s.split()\<close> (the maximal runs without whitespace) and \<open>' '.join(s.split())\<close>.\<close>

fun py_words :: "string \<Rightarrow> string list" where
  "py_words [] = []"
| "py_words (c # cs) =
     (if is_space c then py_words cs
      else (case py_words cs of
              [] \<Rightarrow> [[c]]
            | w # ws \<Rightarrow> if cs \<noteq> [] \<and> \<not> is_space (hd cs) then (c # w) # ws else [c] # w # ws))"

fun join_sp :: "string list \<Rightarrow> string" where
  "join_sp [] = []"
| "join_sp [w] = w"
| "join_sp (w # v # ws) = w @ CHR '' '' # join_sp (v # ws)"

definition normalize_ws :: "string \<Rightarrow> string" where
  "normalize_ws s = join_sp (py_words s)"

text \<open>\<open>s.replace(old, new)\<close>, every occurrence from left to right.\<close>

fun replace_from :: "string \<Rightarrow> string \<Rightarrow> string \<Rightarrow> nat \<Rightarrow> string" where
  "replace_from old new [] skip = []"
| "replace_from old new (c # cs) skip =
     (if skip > 0 then replace_from old new cs (skip - 1)
      else if prefix old (c # cs) then new @ replace_from old new cs (length old - 1)
      else c # replace_from old new cs 0)"

definition replace_all :: "string \<Rightarrow> string \<Rightarrow> string \<Rightarrow> string" where
  "replace_all s old new =
     (if old = [] then new @ concat (map (\<lambda>c. c # new) s) else replace_from old new s 0)"

section \<open>Patch Applier\<close>

text \<open>
  A candidate is a Python dict with string values.
  \<^verbatim>\<open>
  def apply_replacements(code, replacements):
      for r in replacements:
          old = r.get('old', r.get('search', ''))
          new = r.get('new', r.get('replace', ''))
          old = re.sub(r'^\d+:\s*', '', old)
          new = re.sub(r'\d+:\s*', '', new)
          if not old:
              continue
          if old in code:
              code = code.replace(old, new, 1)
              continue
          old_no_comment = re.split(r'\s*//.*$', old.strip())[0].strip()
          if old_no_comment and old_no_comment in code:
              lines = code.split('\n')
              for i, line in enumerate(lines):
                  line_no_comment = re.split(r'\s*//.*$', line.strip())[0].strip()
                  if old_no_comment == line_no_comment:
                      indent = len(line) - len(line.lstrip())
                      new_no_comment = re.split(r'\s*//.*$', new.strip())[0].strip()
                      lines[i] = ' ' * indent + new_no_comment
                      code = '\n'.join(lines)
                      break
              continue
          normalized_old = ' '.join(old_no_comment.split()) if old_no_comment else ' '.join(old.split())
          found = False
          for line_idx, line in enumerate(code.split('\n')):
              line_no_comment = re.split(r'\s*//.*$', line)[0]
              normalized_line = ' '.join(line_no_comment.split())
              if normalized_old and normalized_old in normalized_line:
                  lines = code.split('\n')
                  original_line = lines[line_idx]
                  if ';' in new and ';' not in old:
                      stripped = original_line.rstrip()
                      if not stripped.endswith(';'):
                          comment_pos = stripped.find('//')
                          if comment_pos > 0:
                              before = stripped[:comment_pos].rstrip()
                              comment = stripped[comment_pos:]
                              lines[line_idx] = before + ';  ' + comment
                          else:
                              lines[line_idx] = stripped + ';'
                          code = '\n'.join(lines)
                          found = True
                          break
                  elif ')' in new and ')' not in old:
                      stripped = original_line.rstrip()
                      comment_pos = stripped.find('//')
                      if comment_pos > 0:
                          before = stripped[:comment_pos].rstrip()
                          comment = stripped[comment_pos:]
                          lines[line_idx] = before + ')  ' + comment
                      else:
                          lines[line_idx] = stripped + ')'
                      code = '\n'.join(lines)
                      found = True
                      break
      return code
  \<close>
\<close>

type_synonym replacement = "string \<rightharpoonup> string"

text \<open>\<open>r.get(k1, r.get(k2, ''))\<close>.\<close>

definition r_get :: "replacement \<Rightarrow> string \<Rightarrow> string \<Rightarrow> string" where
  "r_get r k1 k2 = (case r k1 of Some v \<Rightarrow> v | None \<Rightarrow> (case r k2 of Some v \<Rightarrow> v | None \<Rightarrow> []))"

text \<open>The pattern \<open>\d+:\s*\<close>.\<close>

definition line_number_pat :: "item list" where
  "line_number_pat = [Plus is_digit, Lit '':'', Star is_space]"

text \<open>\<open>re.sub(r'^\d+:\s*', '', old)\<close>: without \<open>re.MULTILINE\<close> the pattern can match at the
  start of the text only.\<close>

definition strip_line_number_prefix :: "string \<Rightarrow> string" where
  "strip_line_number_prefix old =
     (case match_items line_number_pat None old of None \<Rightarrow> old | Some (caps, n) \<Rightarrow> drop n old)"

text \<open>\<open>re.sub(r'\d+:\s*', '', new)\<close>: the pattern is not anchored.\<close>

definition strip_line_numbers :: "string \<Rightarrow> string" where
  "strip_line_numbers new = re_sub line_number_pat (\<lambda>caps. []) new"

text \<open>The pattern \<open>\s*//.*$\<close> and \<open>re.split(r'\s*//.*$', s.strip())[0].strip()\<close>.\<close>

definition comment_pat :: "item list" where
  "comment_pat = [Star is_space, Lit ''//'', RestOfLineToEnd]"

definition no_comment :: "string \<Rightarrow> string" where
  "no_comment s = strip (re_split0 comment_pat (strip s))"

text \<open>The loop of the second method over the lines: the first line whose comment-free
  form equals \<open>old_no_comment\<close> is replaced; \<open>None\<close> when no line does.\<close>

fun replace_line_no_comment :: "string \<Rightarrow> string \<Rightarrow> string list \<Rightarrow> string list option" where
  "replace_line_no_comment old_no_comment new [] = None"
| "replace_line_no_comment old_no_comment new (line # rest) =
     (if old_no_comment = no_comment line
      then Some ((replicate (length line - length (lstrip line)) (CHR '' '') @ no_comment new) # rest)
      else map_option ((#) line) (replace_line_no_comment old_no_comment new rest))"

text \<open>The edit of the third method: \<open>t\<close> is \<open>';'\<close> or \<open>')'\<close>.\<close>

definition append_before_comment :: "string \<Rightarrow> string \<Rightarrow> string" where
  "append_before_comment stripped t =
     (let comment_pos = py_find stripped ''//''
      in if comment_pos > 0
         then rstrip (take (nat comment_pos) stripped) @ t @ ''  '' @ drop (nat comment_pos) stripped
         else stripped @ t)"

fun fuzzy_lines :: "string \<Rightarrow> string \<Rightarrow> string \<Rightarrow> string list \<Rightarrow> string list option" where
  "fuzzy_lines normalized_old old new [] = None"
| "fuzzy_lines normalized_old old new (line # rest) =
     (if normalized_old \<noteq> [] \<and> contains (normalize_ws (re_split0 comment_pat line)) normalized_old
      then (if CHR '';'' \<in> set new \<and> CHR '';'' \<notin> set old
            then (if \<not> endswith (rstrip line) '';''
                  then Some (append_before_comment (rstrip line) '';'' # rest)
                  else map_option ((#) line) (fuzzy_lines normalized_old old new rest))
            else if CHR '')'' \<in> set new \<and> CHR '')'' \<notin> set old
            then Some (append_before_comment (rstrip line) '')'' # rest)
            else map_option ((#) line) (fuzzy_lines normalized_old old new rest))
      else map_option ((#) line) (fuzzy_lines normalized_old old new rest))"

definition apply_replacement :: "string \<Rightarrow> replacement \<Rightarrow> string" where
  "apply_replacement code r =
     (let old = strip_line_number_prefix (r_get r ''old'' ''search'');
          new = strip_line_numbers (r_get r ''new'' ''replace'')
      in if old = [] then code
         else if contains code old then replace_first code old new
         else
           let old_no_comment = no_comment old in
           if old_no_comment \<noteq> [] \<and> contains code old_no_comment
           then (case replace_line_no_comment old_no_comment new (split_nl code) of
                   None \<Rightarrow> code
                 | Some lines \<Rightarrow> join_nl lines)
           else
             let normalized_old =
                   (if old_no_comment \<noteq> [] then normalize_ws old_no_comment else normalize_ws old)
             in (case fuzzy_lines normalized_old old new (split_nl code) of
                   None \<Rightarrow> code
                 | Some lines \<Rightarrow> join_nl lines))"

definition apply_replacements :: "string \<Rightarrow> replacement list \<Rightarrow> string" where
  "apply_replacements code replacements = fold (\<lambda>r c. apply_replacement c r) replacements code"

section \<open>Safety Validator\<close>

text \<open>
  \<open>validate_fix_semantics\<close> returns \<open>(True, None)\<close> or \<open>(False, message)\<close>. The message is a
  formatted text; \<open>safe_apply_fix\<close> reads it back with
  \<^verbatim>\<open>re.search(r'import ... : (\S+) -> (\S+)', error_msg)\<close>, whose literal part occurs in the
  import-truncation message only and whose groups are the two module paths (module paths
  have no whitespace). The verdict is therefore a datatype that carries module paths.

  The import check walks two Python sets and reports the first pair of paths that
  qualifies. Python iterates a set in an order of its own, and each qualifying pair comes
  first in some order of the two sets. \<open>ImportTruncated\<close> therefore carries all the pairs
  \<open>(orig_module, fixed_module)\<close> that qualify: the message of the source names one of them.
\<close>

datatype rejection =
    LengthChange nat nat
  | TooManyIdentifiers
  | Unbalanced string
  | CriticalRemoved string
  | ImportTruncated "(string \<times> string) list"

datatype verdict = Accepted | Rejected rejection

text \<open>\<open>re.findall(r'\b[a-zA-Z_][a-zA-Z0-9_]*\b', code)\<close>.\<close>

definition is_ident_start :: "char \<Rightarrow> bool" where
  "is_ident_start c = (let n = (of_char c :: nat) in
     (65 \<le> n \<and> n \<le> 90) \<or> n = 95 \<or> (97 \<le> n \<and> n \<le> 122))"

definition is_ident_char :: "char \<Rightarrow> bool" where
  "is_ident_char c = (is_ident_start c \<or> is_digit c)"

definition identifier_pat :: "item list" where
  "identifier_pat = [Boundary, One is_ident_start, Star is_ident_char, Boundary]"

definition identifiers :: "string \<Rightarrow> string list" where
  "identifiers code = re_findall identifier_pat code"

definition keyword_set :: "string list" where
  "keyword_set = [''if'', ''else'', ''for'', ''while'', ''return'', ''class'', ''def'', ''try'', ''except'',
     ''finally'', ''import'', ''from'', ''as'', ''in'', ''not'', ''and'', ''or'', ''True'', ''False'',
     ''None'', ''public'', ''private'', ''static'', ''void'', ''int'', ''string'', ''float'',
     ''double'', ''bool'', ''boolean'', ''char'', ''const'', ''auto'', ''include'', ''using'',
     ''namespace'', ''std'', ''new'', ''delete'', ''virtual'', ''override'']"

text \<open>The dict of \<open>count_brackets\<close>, in insertion order.\<close>

definition bracket_families :: "(string \<times> char \<times> char) list" where
  "bracket_families =
     [(''paren'', CHR ''('', CHR '')''), (''bracket'', CHR ''['', CHR '']''),
      (''brace'', CHR ''{'', CHR ''}'')]"

text \<open>The critical patterns of a language, each with a name: \<^verbatim>\<open>def\s+\w+\<close>,
  \<^verbatim>\<open>class\s+\w+\<close>, \<^verbatim>\<open>import\s+\w+\<close>, \<^verbatim>\<open>public\s+class\<close>,
  \<^verbatim>\<open>public\s+static\s+void\s+main\<close>, \<^verbatim>\<open>int\s+main\<close> and \<^verbatim>\<open>#include\<close>.\<close>

definition critical_patterns :: "string \<Rightarrow> (string \<times> item list) list" where
  "critical_patterns lang =
     (if lang = ''python'' then
        [(''def'', [Lit ''def'', Plus is_space, Plus is_word]),
         (''class'', [Lit ''class'', Plus is_space, Plus is_word]),
         (''import'', [Lit ''import'', Plus is_space, Plus is_word])]
      else if lang = ''java'' then
        [(''public class'', [Lit ''public'', Plus is_space, Lit ''class'']),
         (''public static void main'',
          [Lit ''public'', Plus is_space, Lit ''static'', Plus is_space, Lit ''void'',
           Plus is_space, Lit ''main''])]
      else if lang = ''c'' then
        [(''int main'', [Lit ''int'', Plus is_space, Lit ''main'']),
         (''#include'', [Lit ''#include''])]
      else if lang = ''cpp'' then
        [(''int main'', [Lit ''int'', Plus is_space, Lit ''main'']),
         (''#include'', [Lit ''#include'']),
         (''class'', [Lit ''class'', Plus is_space, Plus is_word])]
      else [])"

text \<open>
  \<^verbatim>\<open>
  def extract_python_imports(code):
      modules = set()
      for match in re.finditer(r'from\s+([\w.]+)\s+import', code):
          modules.add(match.group(1))
      for match in re.finditer(r'^import\s+([\w.]+)', code, re.MULTILINE):
          modules.add(match.group(1))
      for match in re.finditer(r'import\s+([\w.]+)\s+as', code):
          modules.add(match.group(1))
      return modules
  \<close>
  A Python set is modelled as a list without duplicates; nothing below depends on the order
  of its elements other than the order of the pairs inside \<open>ImportTruncated\<close>.
\<close>

definition is_module_char :: "char \<Rightarrow> bool" where
  "is_module_char c = (is_word c \<or> c = CHR ''.'')"

definition extract_python_imports :: "string \<Rightarrow> string list" where
  "extract_python_imports code =
     remdups
       (re_groups [Lit ''from'', Plus is_space, Plus is_module_char, Plus is_space, Lit ''import''] 1 code @
        re_groups [LineStart, Lit ''import'', Plus is_space, Plus is_module_char] 1 code @
        re_groups [Lit ''import'', Plus is_space, Plus is_module_char, Plus is_space, Lit ''as''] 1 code)"

text \<open>\<open>set(re.findall(r'import\s+([\w.]+);', code))\<close>.\<close>

definition extract_java_imports :: "string \<Rightarrow> string list" where
  "extract_java_imports code =
     remdups (re_groups [Lit ''import'', Plus is_space, Plus is_module_char, Lit '';''] 1 code)"

text \<open>
  \<^verbatim>\<open>
  def validate_import_paths(original_code, fixed_code, lang):
      if lang == 'python':
          orig_imports = extract_python_imports(original_code)
          fixed_imports = extract_python_imports(fixed_code)
          for orig_module in orig_imports:
              for fixed_module in fixed_imports:
                  if orig_module.startswith(fixed_module + '_') or \
                     orig_module.startswith(fixed_module + '.'):
                      return False, f"... {orig_module} -> {fixed_module}"
          for orig_module in orig_imports:
              if orig_module.split('.')[0] in ('os', 'sys', 'typing', 're', 'json', 'time'):
                  continue
              if orig_module not in fixed_imports:
                  base_name = orig_module.split('_')[0] if '_' in orig_module else orig_module.split('.')[0]
                  if base_name in fixed_imports:
                      return False, f"... {orig_module} -> {base_name}"
      elif lang == 'java':
          orig_imports = set(re.findall(r'import\s+([\w.]+);', original_code))
          fixed_imports = set(re.findall(r'import\s+([\w.]+);', fixed_code))
          for orig in orig_imports:
              for fixed in fixed_imports:
                  if orig.startswith(fixed + '.') and orig != fixed:
                      return False, f"... {orig} -> {fixed}"
      return True, None
  \<close>
\<close>

definition base_name :: "string \<Rightarrow> string" where
  "base_name orig_module =
     (if CHR ''_'' \<in> set orig_module then takeWhile (\<lambda>c. c \<noteq> CHR ''_'') orig_module
      else takeWhile (\<lambda>c. c \<noteq> CHR ''.'') orig_module)"

definition truncated_pair :: "string \<times> string \<Rightarrow> bool" where
  "truncated_pair p =
     (case p of (orig_module, fixed_module) \<Rightarrow>
        startswith orig_module (fixed_module @ ''_'') \<or>
        startswith orig_module (fixed_module @ ''.''))"

definition lost_module :: "string list \<Rightarrow> string \<Rightarrow> bool" where
  "lost_module fixed_imports orig_module =
     (takeWhile (\<lambda>c. c \<noteq> CHR ''.'') orig_module \<notin>
        set [''os'', ''sys'', ''typing'', ''re'', ''json'', ''time''] \<and>
      orig_module \<notin> set fixed_imports \<and>
      base_name orig_module \<in> set fixed_imports)"

definition validate_import_paths :: "string \<Rightarrow> string \<Rightarrow> string \<Rightarrow> verdict" where
  "validate_import_paths original_code fixed_code lang =
     (if lang = ''python'' then
        (let orig_imports = extract_python_imports original_code;
             fixed_imports = extract_python_imports fixed_code
         in if filter truncated_pair (List.product orig_imports fixed_imports) \<noteq> []
            then Rejected (ImportTruncated
                   (filter truncated_pair (List.product orig_imports fixed_imports)))
            else if filter (lost_module fixed_imports) orig_imports \<noteq> []
            then Rejected (ImportTruncated
                   (map (\<lambda>orig_module. (orig_module, base_name orig_module))
                        (filter (lost_module fixed_imports) orig_imports)))
            else Accepted)
      else if lang = ''java'' then
        (let pairs = filter (\<lambda>(orig, fixed). startswith orig (fixed @ ''.'') \<and> orig \<noteq> fixed)
                       (List.product (extract_java_imports original_code)
                                     (extract_java_imports fixed_code))
         in if pairs \<noteq> [] then Rejected (ImportTruncated pairs) else Accepted)
      else Accepted)"

text \<open>
  \<^verbatim>\<open>
  def validate_fix_semantics(original_code, fixed_code, lang):
      if not fixed_code or fixed_code == original_code:
          return True, None
      original_lines = len(original_code.split('\n'))
      fixed_lines = len(fixed_code.split('\n'))
      if abs(fixed_lines - original_lines) > original_lines * 0.5:
          return False, ...
      original_identifiers = set(re.findall(r'\b[a-zA-Z_][a-zA-Z0-9_]*\b', original_code))
      fixed_identifiers = set(re.findall(r'\b[a-zA-Z_][a-zA-Z0-9_]*\b', fixed_code))
      added_ids = fixed_identifiers - original_identifiers
      added_ids = added_ids - keywords
      if len(added_ids) > 5:
          return False, ...
      original_brackets = count_brackets(original_code)
      fixed_brackets = count_brackets(fixed_code)
      for bracket_type, (orig_open, orig_close) in original_brackets.items():
          fix_open, fix_close = fixed_brackets[bracket_type]
          if fix_open != fix_close and orig_open == orig_close:
              return False, ...
      patterns = critical_patterns.get(lang, [])
      for pattern in patterns:
          orig_matches = len(re.findall(pattern, original_code))
          fix_matches = len(re.findall(pattern, fixed_code))
          if fix_matches < orig_matches:
              return False, ...
      import_check = validate_import_paths(original_code, fixed_code, lang)
      if not import_check[0]:
          return import_check
      return True, None
  \<close>
  The comparison with \<open>original_lines * 0.5\<close> is written over the integers.
\<close>

definition added_ids :: "string \<Rightarrow> string \<Rightarrow> string list" where
  "added_ids original_code fixed_code =
     remdups (filter (\<lambda>x. x \<notin> set (identifiers original_code) \<and> x \<notin> set keyword_set)
                     (identifiers fixed_code))"

definition unbalanced_by_fix :: "string \<Rightarrow> string \<Rightarrow> (string \<times> char \<times> char) \<Rightarrow> bool" where
  "unbalanced_by_fix original_code fixed_code fam =
     (case fam of (bracket_type, opn, cls) \<Rightarrow>
        count_chr fixed_code opn \<noteq> count_chr fixed_code cls \<and>
        count_chr original_code opn = count_chr original_code cls)"

definition validate_fix_semantics :: "string \<Rightarrow> string \<Rightarrow> string \<Rightarrow> verdict" where
  "validate_fix_semantics original_code fixed_code lang =
     (if fixed_code = [] \<or> fixed_code = original_code then Accepted
      else
        let original_lines = length (split_nl original_code);
            fixed_lines = length (split_nl fixed_code)
        in if 2 * \<bar>int fixed_lines - int original_lines\<bar> > int original_lines
           then Rejected (LengthChange original_lines fixed_lines)
           else if length (added_ids original_code fixed_code) > 5 then Rejected TooManyIdentifiers
           else
             (case find (unbalanced_by_fix original_code fixed_code) bracket_families of
                Some (bracket_type, opn, cls) \<Rightarrow> Rejected (Unbalanced bracket_type)
              | None \<Rightarrow>
                  (case find (\<lambda>(src, pattern).
                                length (re_findall pattern fixed_code) <
                                length (re_findall pattern original_code))
                             (critical_patterns lang) of
                     Some (src, pattern) \<Rightarrow> Rejected (CriticalRemoved src)
                   | None \<Rightarrow> validate_import_paths original_code fixed_code lang)))"

text \<open>
  \<^verbatim>\<open>
  def fix_python_import_truncated(code, truncated_module, full_module):
      lines = code.split('\n')
      for i, line in enumerate(lines):
          if f'from {truncated_module} ' in line or f'import {truncated_module}' in line:
              new_line = line.replace(f'from {truncated_module} ', f'from {full_module} ')
              new_line = new_line.replace(f'import {truncated_module}', f'import {full_module}')
              if new_line != line:
                  lines[i] = new_line
      return '\n'.join(lines)
  \<close>
\<close>

definition recover_line :: "string \<Rightarrow> string \<Rightarrow> string \<Rightarrow> string" where
  "recover_line truncated_module full_module line =
     (if contains line (''from '' @ truncated_module @ '' '') \<or>
         contains line (''import '' @ truncated_module)
      then replace_all
             (replace_all line (''from '' @ truncated_module @ '' '') (''from '' @ full_module @ '' ''))
             (''import '' @ truncated_module) (''import '' @ full_module)
      else line)"

definition fix_python_import_truncated :: "string \<Rightarrow> string \<Rightarrow> string \<Rightarrow> string" where
  "fix_python_import_truncated code truncated_module full_module =
     join_nl (map (recover_line truncated_module full_module) (split_nl code))"

text \<open>
  \<^verbatim>\<open>
  def safe_apply_fix(original_code, fixed_code, lang):
      is_valid, error_msg = validate_fix_semantics(original_code, fixed_code, lang)
      if is_valid:
          return fixed_code, True
      if error_msg and '<import truncation>' in error_msg:
          match = re.search(r'<import truncation>: (\S+) -> (\S+)', error_msg)
          if match:
              full_module, truncated_module = match.groups()
              recovered_code = fix_python_import_truncated(fixed_code, truncated_module, full_module)
              if recovered_code != fixed_code:
                  is_valid2, _ = validate_fix_semantics(original_code, recovered_code, lang)
                  if is_valid2:
                      return recovered_code, True
      return original_code, False
  \<close>
  (\<open><import truncation>\<close> stands for the literal text of the message.)
  The message names one of the pairs of \<open>ImportTruncated\<close>, so the model gives the results
  the source can return: one result when the validator accepts or rejects for another
  reason, and one result for each pair that the message may name.
\<close>

definition recover_with :: "string \<Rightarrow> string \<Rightarrow> string \<Rightarrow> string \<times> string \<Rightarrow> string \<times> bool" where
  "recover_with original_code fixed_code lang p =
     (case p of (full_module, truncated_module) \<Rightarrow>
        let recovered_code = fix_python_import_truncated fixed_code truncated_module full_module
        in if recovered_code \<noteq> fixed_code \<and>
              validate_fix_semantics original_code recovered_code lang = Accepted
           then (recovered_code, True)
           else (original_code, False))"


section \<open>Repair Loop Controller\<close>

text \<open>
  The fifth layer of \<open>try_local_fix\<close>, which is all of it for Python (the first four layers
  run for C, C++ and Java only):
  \<^verbatim>\<open>
  error_lines = error_msg.split('\n')
  rules = LOCAL_FIX_RULES.get(lang, {})
  for err_line in error_lines:
      if 'error:' not in err_line:
          continue
      for pattern, fix_func in rules.items():
          match = re.search(pattern, err_line)
          if match and fix_func:
              try:
                  new_code = fix_func(match, code)
                  if new_code != code:
                      code = new_code
                      fixed_any = True
                      break
              except Exception:
                  pass
  return code, fixed_any
  \<close>
  A rule is the test "the pattern occurs in the diagnostic line" and its handler, \<open>None\<close>
  for an entry mapped to \<open>None\<close>; a handler gets the diagnostic line (\<open>m.string\<close>) and the
  code, and gives \<open>None\<close> when it raises.
\<close>

type_synonym rule = "(string \<Rightarrow> bool) \<times> (string \<Rightarrow> string \<Rightarrow> string option) option"

fun try_rules :: "rule list \<Rightarrow> string \<Rightarrow> string \<Rightarrow> string option" where
  "try_rules [] err_line code = None"
| "try_rules ((pattern, fix_func) # rules) err_line code =
     (case fix_func of
        None \<Rightarrow> try_rules rules err_line code
      | Some h \<Rightarrow>
          if pattern err_line
          then (case h err_line code of
                  None \<Rightarrow> try_rules rules err_line code
                | Some new_code \<Rightarrow>
                    if new_code \<noteq> code then Some new_code else try_rules rules err_line code)
          else try_rules rules err_line code)"

definition try_local_fix_python :: "rule list \<Rightarrow> string \<Rightarrow> string \<Rightarrow> string \<times> bool" where
  "try_local_fix_python rules code error_msg =
     fold (\<lambda>err_line (code, fixed_any).
             if \<not> contains err_line ''error:'' then (code, fixed_any)
             else (case try_rules rules err_line code of
                     None \<Rightarrow> (code, fixed_any)
                   | Some new_code \<Rightarrow> (new_code, True)))
          (split_nl error_msg) (code, False)"

text \<open>
  The collaborators of one session: the toolchain (\<open>copy_code_to_container\<close> followed by
  \<open>compile_code\<close> or \<open>run_code\<close>, as functions of the code), the Rule Engine entry
  \<open>try_local_fix\<close> and \<open>extract_error_context\<close> at the session's language, and the oracle
  behind \<open>call_llm_for_fix\<close>.
\<close>

record session =
  session_lang :: string
  has_compile_cmd :: bool
  compile_code :: "string \<Rightarrow> bool \<times> string \<times> string"
  run_code :: "string \<Rightarrow> bool \<times> string \<times> string"
  try_local_fix :: "string \<Rightarrow> string \<Rightarrow> string \<times> bool"
  extract_error_context :: "string \<Rightarrow> string \<Rightarrow> int option \<times> string option"
  call_llm_for_fix :: "string \<Rightarrow> string \<Rightarrow> int option \<Rightarrow> replacement list"

datatype flow = Continue | Break

text \<open>
  One pass of the loop of phase 3 of \<open>auto_fix\<close>:
  \<^verbatim>\<open>
  for iteration in range(MAX_ITERATIONS):
      copy_code_to_container(code, lang)
      if LANG_CONFIG[lang].get("compile_cmd"):
          ok, _, stderr = compile_code(lang)
          if not ok:
              break
      ok, stdout, stderr = run_code(lang)
      if ok:
          success = True
          break
      error_msg = stderr or stdout
      code, fixed = try_local_fix(code, error_msg, lang)
      if fixed:
          continue
      line_num, context = extract_error_context(code, error_msg, lang)
      if not context:
          break
      replacements = call_llm_for_fix(llm, error_msg, context, line_num, lang)
      if not replacements:
          break
      new_code = apply_replacements(code, replacements)
      if new_code == code:
          break
      code = new_code
  \<close>
\<close>

definition error_msg_of :: "session \<Rightarrow> string \<Rightarrow> string" where
  "error_msg_of env code =
     (case run_code env code of (ok, stdout, stderr) \<Rightarrow> if stderr \<noteq> [] then stderr else stdout)"

definition auto_fix_iteration :: "session \<Rightarrow> string \<Rightarrow> string \<times> flow" where
  "auto_fix_iteration env code =
     (if has_compile_cmd env \<and> \<not> fst (compile_code env code) then (code, Break)
      else if fst (run_code env code) then (code, Break)
      else
        let error_msg = error_msg_of env code in
        (case try_local_fix env code error_msg of
           (code1, fixed) \<Rightarrow>
             if fixed then (code1, Continue)
             else
               (case extract_error_context env code1 error_msg of
                  (line_num, context) \<Rightarrow>
                    (case context of
                       None \<Rightarrow> (code1, Break)
                     | Some ctx \<Rightarrow>
                         if ctx = [] then (code1, Break)
                         else
                           let replacements = call_llm_for_fix env error_msg ctx line_num in
                           if replacements = [] then (code1, Break)
                           else
                             let new_code = apply_replacements code1 replacements in
                             if new_code = code1 then (code1, Break) else (new_code, Continue)))))"

fun auto_fix_loop :: "session \<Rightarrow> nat \<Rightarrow> string \<Rightarrow> string" where
  "auto_fix_loop env 0 code = code"
| "auto_fix_loop env (Suc n) code =
     (case auto_fix_iteration env code of
        (code', Break) \<Rightarrow> code'
      | (code', Continue) \<Rightarrow> auto_fix_loop env n code')"

definition MAX_ITERATIONS :: nat where
  "MAX_ITERATIONS = 50"

section \<open>Rule Engine: assignment in a condition\<close>

text \<open>
  \<^verbatim>\<open>
  def extract_line_num(error_msg):
      match = re.search(r':(\d+):', error_msg)
      if match:
          return int(match.group(1))
      match = re.search(r'line (\d+)', error_msg)
      if match:
          return int(match.group(1))
      return None
  \<close>
\<close>

definition int_of_digits :: "string \<Rightarrow> int" where
  "int_of_digits ds = foldl (\<lambda>n c. 10 * n + (int (of_char c) - 48)) 0 ds"

definition extract_line_num :: "string \<Rightarrow> int option" where
  "extract_line_num error_msg =
     (case re_search [Lit '':'', Plus is_digit, Lit '':''] error_msg of
        Some caps \<Rightarrow> Some (int_of_digits (caps ! 0))
      | None \<Rightarrow>
          (case re_search [Lit ''line '', Plus is_digit] error_msg of
             Some caps \<Rightarrow> Some (int_of_digits (caps ! 0))
           | None \<Rightarrow> None))"

text \<open>
  \<^verbatim>\<open>
  def fix_python_invalid_assignment(code, line_num):
      if not line_num:
          return code
      lines = code.split('\n')
      if not (0 < line_num <= len(lines)):
          return code
      line = lines[line_num - 1]
      if ' = ' in line and ('if ' in line or 'while ' in line or 'elif ' in line):
          new_line = re.sub(r'(\s+)(\w+)\s*=\s*(\w+)', r'\1\2 == \3', line)
          if new_line != line:
              lines[line_num - 1] = new_line
      return '\n'.join(lines)
  \<close>
  The recorded texts of the pattern are the three groups and the two \<open>\s*\<close> runs.
\<close>

definition assignment_pat :: "item list" where
  "assignment_pat =
     [Plus is_space, Plus is_word, Star is_space, Lit ''='', Star is_space, Plus is_word]"

definition assignment_repl :: "string list \<Rightarrow> string" where
  "assignment_repl caps = caps ! 0 @ caps ! 1 @ '' == '' @ caps ! 4"

definition fix_python_invalid_assignment :: "string \<Rightarrow> int option \<Rightarrow> string" where
  "fix_python_invalid_assignment code line_num =
     (case line_num of
        None \<Rightarrow> code
      | Some n \<Rightarrow>
          if n = 0 then code
          else
            let lines = split_nl code in
            if \<not> (0 < n \<and> n \<le> int (length lines)) then code
            else
              let line = lines ! (nat n - 1) in
              if contains line '' = '' \<and>
                 (contains line ''if '' \<or> contains line ''while '' \<or> contains line ''elif '')
              then (let new_line = re_sub assignment_pat assignment_repl line
                    in if new_line \<noteq> line then join_nl (lines[nat n - 1 := new_line])
                       else join_nl lines)
              else join_nl lines)"

text \<open>
  The entry of the Python rule table:
  \<^verbatim>\<open>r"cannot assign to": lambda m, code: fix_python_invalid_assignment(code, extract_line_num(m.string))\<close>.
  The pattern has no special character, so it is found where it is a substring.
\<close>

definition rule_cannot_assign_to :: rule where
  "rule_cannot_assign_to =
     (\<lambda>err_line. contains err_line ''cannot assign to'',
      Some (\<lambda>err_line code. Some (fix_python_invalid_assignment code (extract_line_num err_line))))"

text \<open>
  A Python session for the statements about the loop: the program fails at run time on
  line 1 with a traceback, the rule table holds the rule above, the error context is the
  marked line 1, and the oracle proposes to replace \<open>x\<close> by \<open>(x\<close>.
\<close>

definition traceback_session :: session where
  "traceback_session =
     \<lparr>session_lang = ''python'', has_compile_cmd = False,
      compile_code = (\<lambda>code. (True, [], [])),
      run_code = (\<lambda>code. (False, [],
        ''  File t.py, line 1, in <module>\<newline>NameError: name f is not defined'')),
      try_local_fix = try_local_fix_python [rule_cannot_assign_to],
      extract_error_context = (\<lambda>code error_msg. (Some 1, Some ''>>> 1: f(x)'')),
      call_llm_for_fix = (\<lambda>error_msg context line_num. [[''old'' \<mapsto> ''x'', ''new'' \<mapsto> ''(x'']])\<rparr>"

section \<open>Rule Engine: fix-it hints of the toolchain\<close>

text \<open>
  \<^verbatim>\<open>
  def parse_gcc_fixits(error_output):
      fixits = []
      pattern = r'fix-it:"[^"]+":\{(\d+):(\d+)-(\d+):(\d+)\}:"([^"]*)"'
      for match in re.finditer(pattern, error_output):
          line_start = int(match.group(1))
          col_start = int(match.group(2))
          line_end = int(match.group(3))
          col_end = int(match.group(4))
          replacement = match.group(5)
          replacement = replacement.replace('\\n', '\n').replace('\\t', '\t')
          fixits.append((line_start, col_start, line_end, col_end, replacement))
      return fixits
  \<close>
\<close>

type_synonym fixit = "int \<times> int \<times> int \<times> int \<times> string"

definition not_quote :: "char \<Rightarrow> bool" where
  "not_quote c = (c \<noteq> CHR 0x22)"

definition fixit_pat :: "item list" where
  "fixit_pat =
     [Lit (''fix-it:'' @ [CHR 0x22]), Plus not_quote, Lit ([CHR 0x22] @ '':{''),
      Plus is_digit, Lit '':'', Plus is_digit, Lit ''-'', Plus is_digit, Lit '':'', Plus is_digit,
      Lit (''}:'' @ [CHR 0x22]), Star not_quote, Lit [CHR 0x22]]"

definition parse_gcc_fixits :: "string \<Rightarrow> fixit list" where
  "parse_gcc_fixits error_output =
     map (\<lambda>m. case snd m of caps \<Rightarrow>
            (int_of_digits (caps ! 1), int_of_digits (caps ! 2),
             int_of_digits (caps ! 3), int_of_digits (caps ! 4),
             replace_all (replace_all (caps ! 5) [CHR 0x5C, CHR ''n''] [CHR 0x0A])
                         [CHR 0x5C, CHR ''t''] [CHR 0x09]))
         (re_finditer fixit_pat error_output)"

text \<open>Python slices \<open>s[:k]\<close> and \<open>s[k:]\<close>; a negative \<open>k\<close> counts from the end.\<close>

definition slice_to :: "string \<Rightarrow> int \<Rightarrow> string" where
  "slice_to s k = (if k \<ge> 0 then take (nat k) s else take (nat (int (length s) + k)) s)"

definition slice_from :: "string \<Rightarrow> int \<Rightarrow> string" where
  "slice_from s k = (if k \<ge> 0 then drop (nat k) s else drop (nat (int (length s) + k)) s)"

text \<open>
  \<^verbatim>\<open>
  def apply_fixits(code, fixits):
      if not fixits:
          return code, False
      lines = code.split('\n')
      applied = False
      fixits_sorted = sorted(fixits, key=lambda x: (x[0], x[1]), reverse=True)
      for line_start, col_start, line_end, col_end, replacement in fixits_sorted:
          if line_start == line_end and 0 < line_start <= len(lines):
              line = lines[line_start - 1]
              if col_start <= len(line) + 1 and col_end <= len(line) + 1:
                  new_line = line[:col_start-1] + replacement + line[col_end-1:]
                  if new_line != line:
                      lines[line_start - 1] = new_line
                      applied = True
      return '\n'.join(lines), applied
  \<close>
  \<open>sorted(..., reverse=True)\<close> is stable: it is the stable sort by the negated key.
\<close>

definition apply_fixit :: "fixit \<Rightarrow> string list \<times> bool \<Rightarrow> string list \<times> bool" where
  "apply_fixit f st =
     (case f of (line_start, col_start, line_end, col_end, replacement) \<Rightarrow>
      case st of (lines, applied) \<Rightarrow>
        if line_start = line_end \<and> 0 < line_start \<and> line_start \<le> int (length lines)
        then
          let line = lines ! (nat line_start - 1) in
          if col_start \<le> int (length line) + 1 \<and> col_end \<le> int (length line) + 1
          then
            let new_line = slice_to line (col_start - 1) @ replacement @ slice_from line (col_end - 1)
            in if new_line \<noteq> line then (lines[nat line_start - 1 := new_line], True)
               else (lines, applied)
          else (lines, applied)
        else (lines, applied))"

definition fixits_sorted :: "fixit list \<Rightarrow> fixit list" where
  "fixits_sorted fixits =
     sort_key (\<lambda>f. case f of (line_start, col_start, rest) \<Rightarrow> (- line_start, - col_start)) fixits"

definition apply_fixits :: "string \<Rightarrow> fixit list \<Rightarrow> string \<times> bool" where
  "apply_fixits code fixits =
     (if fixits = [] then (code, False)
      else (case fold apply_fixit (fixits_sorted fixits) (split_nl code, False) of
              (lines, applied) \<Rightarrow> (join_nl lines, applied)))"

text \<open>
  The reading of the specification to compare with: a hint replaces the span from its start
  line and column to its end line and column (columns count from 1, the end column is
  exclusive) by its replacement text, at the coordinates of the text as it was given.
  \<open>spec_apply_hint\<close> is that for one hint, which may span lines. \<open>spec_apply_hints\<close> is
  that for a list of hints that each lie in one line: every line is rebuilt from pieces of
  the line as it was given and the replacements of its hints, taken from right to left;
  \<open>spec_line line p hs\<close> is the new text of the columns before \<open>p\<close>.
\<close>

definition spec_apply_hint :: "string list \<Rightarrow> fixit \<Rightarrow> string" where
  "spec_apply_hint lines f =
     (case f of (line_start, col_start, line_end, col_end, replacement) \<Rightarrow>
        join_nl (take (nat line_start - 1) lines @
                 [take (nat col_start - 1) (lines ! (nat line_start - 1)) @ replacement @
                  drop (nat col_end - 1) (lines ! (nat line_end - 1))] @
                 drop (nat line_end) lines))"

fun spec_line :: "string \<Rightarrow> int \<Rightarrow> fixit list \<Rightarrow> string" where
  "spec_line line p [] = take (nat (p - 1)) line"
| "spec_line line p ((line_start, col_start, line_end, col_end, replacement) # hs) =
     spec_line line col_start hs @ replacement @ take (nat (p - col_end)) (drop (nat (col_end - 1)) line)"

definition hints_of_line :: "fixit list \<Rightarrow> nat \<Rightarrow> fixit list" where
  "hints_of_line hs i = filter (\<lambda>h. fst h = int i + 1) hs"

definition spec_apply_hints :: "string list \<Rightarrow> fixit list \<Rightarrow> string list" where
  "spec_apply_hints lines hs =
     map (\<lambda>i. spec_line (lines ! i) (int (length (lines ! i)) + 1)
                 (hints_of_line (fixits_sorted hs) i))
         [0..<length lines]"

text \<open>A hint that lies in one line of the text, and two hints that do not overlap and do not
  start at the same place.\<close>

definition in_one_line :: "string list \<Rightarrow> fixit \<Rightarrow> bool" where
  "in_one_line lines f =
     (case f of (line_start, col_start, line_end, col_end, replacement) \<Rightarrow>
        line_start = line_end \<and> 0 < line_start \<and> line_start \<le> int (length lines) \<and>
        1 \<le> col_start \<and> col_start \<le> col_end \<and>
        col_end \<le> int (length (lines ! (nat line_start - 1))) + 1)"

definition apart :: "fixit \<Rightarrow> fixit \<Rightarrow> bool" where
  "apart f g =
     (case f of (l, cs, le, ce, r) \<Rightarrow> case g of (l', cs', le', ce', r') \<Rightarrow>
        l \<noteq> l' \<or> (ce \<le> cs' \<and> cs < cs') \<or> (ce' \<le> cs \<and> cs' < cs))"

text \<open>What \<open>apply_fixit\<close> does to the line of its hint.\<close>

definition splice :: "fixit \<Rightarrow> string \<Rightarrow> string" where
  "splice f line =
     (case f of (line_start, col_start, line_end, col_end, replacement) \<Rightarrow>
        if col_start \<le> int (length line) + 1 \<and> col_end \<le> int (length line) + 1
        then slice_to line (col_start - 1) @ replacement @ slice_from line (col_end - 1)
        else line)"

section \<open>Dependency Scheduler\<close>

text \<open>
  A dependency graph is a Python dict from a file to the list of the files it depends on:
  an association list in insertion order, its keys distinct.
  \<^verbatim>\<open>
  def topological_sort(graph):
      in_degree = {node: 0 for node in graph}
      for node in graph:
          for dep in graph[node]:
              if dep in in_degree:
                  in_degree[dep] += 0
      reverse_deps = {node: [] for node in graph}
      for node in graph:
          for dep in graph[node]:
              if dep in reverse_deps:
                  reverse_deps[dep].append(node)
      priority = {node: len(reverse_deps.get(node, [])) for node in graph}
      visited = set()
      result = []
      while len(result) < len(graph):
          candidates = []
          for node in graph:
              if node not in visited:
                  unresolved_deps = [d for d in graph[node] if d not in visited]
                  if not unresolved_deps:
                      candidates.append(node)
          if not candidates:
              remaining = [n for n in graph if n not in visited]
              candidates = sorted(remaining, key=lambda x: priority.get(x, 0), reverse=True)[:1]
          candidates.sort(key=lambda x: priority.get(x, 0), reverse=True)
          next_node = candidates[0]
          result.append(next_node)
          visited.add(next_node)
      return result
  \<close>
  \<open>in_degree\<close> is written and never read. \<open>candidates[0]\<close> raises on an empty list: the
  model returns \<open>None\<close> there.
\<close>

type_synonym 'a graph = "('a \<times> 'a list) list"

definition nodes :: "'a graph \<Rightarrow> 'a list" where
  "nodes graph = map fst graph"

definition deps_of :: "'a graph \<Rightarrow> 'a \<Rightarrow> 'a list" where
  "deps_of graph node = (case map_of graph node of None \<Rightarrow> [] | Some ds \<Rightarrow> ds)"

definition reverse_deps :: "'a graph \<Rightarrow> 'a \<Rightarrow> 'a list" where
  "reverse_deps graph dep = concat (map (\<lambda>node. filter (\<lambda>d. d = dep) (deps_of graph node)) (nodes graph))"

definition priority :: "'a graph \<Rightarrow> 'a \<Rightarrow> nat" where
  "priority graph node = (if node \<in> set (nodes graph) then length (reverse_deps graph node) else 0)"

definition sort_by_priority :: "'a graph \<Rightarrow> 'a list \<Rightarrow> 'a list" where
  "sort_by_priority graph xs = sort_key (\<lambda>x. - int (priority graph x)) xs"

definition ready :: "'a graph \<Rightarrow> 'a set \<Rightarrow> 'a list" where
  "ready graph visited =
     filter (\<lambda>node. node \<notin> visited \<and> filter (\<lambda>d. d \<notin> visited) (deps_of graph node) = [])
            (nodes graph)"

definition candidates_of :: "'a graph \<Rightarrow> 'a set \<Rightarrow> 'a list" where
  "candidates_of graph visited =
     (if ready graph visited = []
      then take 1 (sort_by_priority graph (filter (\<lambda>n. n \<notin> visited) (nodes graph)))
      else ready graph visited)"

function topological_loop :: "'a graph \<Rightarrow> 'a set \<Rightarrow> 'a list \<Rightarrow> 'a list option" where
  "topological_loop graph visited result =
     (if length result < length graph
      then (case sort_by_priority graph (candidates_of graph visited) of
              [] \<Rightarrow> None
            | next_node # _ \<Rightarrow>
                topological_loop graph (insert next_node visited) (result @ [next_node]))
      else Some result)"
  by pat_completeness auto
termination
  by (relation "measure (\<lambda>(graph, visited, result). length graph - length result)") auto

declare topological_loop.simps [simp del]

definition topological_sort :: "'a graph \<Rightarrow> 'a list option" where
  "topological_sort graph = topological_loop graph {} []"

text \<open>Notions for the statements about the order: the edges of a graph, a graph whose
  dependencies are all nodes, and the index of a node in a list.\<close>

definition edges :: "'a graph \<Rightarrow> ('a \<times> 'a) set" where
  "edges graph = {(n, d). n \<in> set (nodes graph) \<and> d \<in> set (deps_of graph n)}"

definition closed_graph :: "'a graph \<Rightarrow> bool" where
  "closed_graph graph = list_all (\<lambda>(n, ds). list_all (\<lambda>d. d \<in> set (nodes graph)) ds) graph"

fun index_of :: "'a list \<Rightarrow> 'a \<Rightarrow> nat" where
  "index_of [] x = 0"
| "index_of (y # ys) x = (if x = y then 0 else Suc (index_of ys x))"

text \<open>The dependents of a node, in the words of the specification: the nodes of the graph
  whose dependency list names it. The count of dependents of a node is the number of
  these nodes. \<open>no_repeated_deps\<close>: no dependency list names a node twice, as in the graphs
  of \<open>build_dependency_graph\<close>, whose lists come from \<open>list(set(deps))\<close>.\<close>

definition spec_dependents :: "'a graph \<Rightarrow> 'a \<Rightarrow> 'a set" where
  "spec_dependents graph node = {m \<in> set (nodes graph). node \<in> set (deps_of graph m)}"

definition no_repeated_deps :: "'a graph \<Rightarrow> bool" where
  "no_repeated_deps graph = list_all (\<lambda>(n, ds). distinct ds) graph"

text \<open>What one pass of the loop requires of the node it appends: it is a node not yet
  visited; when some node is ready it is a ready node of the highest priority, and
  otherwise it has the highest priority among the nodes that remain.\<close>

definition chosen :: "'a graph \<Rightarrow> 'a set \<Rightarrow> 'a \<Rightarrow> bool" where
  "chosen graph visited x \<longleftrightarrow>
     x \<in> set (nodes graph) \<and> x \<notin> visited \<and>
     (if ready graph visited \<noteq> []
      then x \<in> set (ready graph visited) \<and>
           (\<forall>m\<in>set (ready graph visited). priority graph m \<le> priority graph x)
      else (\<forall>m\<in>set (nodes graph) - visited. priority graph m \<le> priority graph x))"

section \<open>Facts about lines\<close>

lemma split_nl_nonempty: "split_nl s \<noteq> []"
  by (induction s) (auto split: list.splits)

lemma join_split_nl: "join_nl (split_nl s) = s"
proof (induction s)
  case Nil
  show ?case by simp
next
  case (Cons c cs)
  obtain l ls where sp: "split_nl cs = l # ls"
    using split_nl_nonempty [of cs] by (cases "split_nl cs") auto
  show ?case
  proof (cases "c = CHR 0x0A")
    case True
    with Cons sp show ?thesis by simp
  next
    case False
    with Cons sp show ?thesis by (cases ls) auto
  qed
qed

lemma join_nl_snoc: "ls \<noteq> [] \<Longrightarrow> join_nl (ls @ [l]) = join_nl ls @ CHR 0x0A # l"
  by (induction ls rule: join_nl.induct) auto

lemma split_nl_append_nl: "split_nl (a @ CHR 0x0A # b) = split_nl a @ split_nl b"
proof (induction a)
  case Nil
  show ?case by simp
next
  case (Cons c cs)
  obtain l ls where sp: "split_nl cs = l # ls"
    using split_nl_nonempty [of cs] by (cases "split_nl cs") auto
  with Cons show ?case by simp
qed

lemma split_nl_no_nl: "CHR 0x0A \<notin> set l \<Longrightarrow> split_nl l = [l]"
  by (induction l) (auto split: list.splits)

subsection \<open>Stripping\<close>

lemma rstrip_decomp: "\<exists>ws. s = rstrip s @ ws \<and> (\<forall>c\<in>set ws. is_space c)"
proof -
  have "rev s = takeWhile is_space (rev s) @ dropWhile is_space (rev s)" by simp
  then have "s = rev (dropWhile is_space (rev s)) @ rev (takeWhile is_space (rev s))"
    by (metis rev_append rev_rev_ident)
  moreover have "\<forall>c\<in>set (rev (takeWhile is_space (rev s))). is_space c"
    by (auto dest: set_takeWhileD)
  ultimately show ?thesis unfolding rstrip_def by blast
qed

lemma rstrip_snoc: "\<not> is_space c \<Longrightarrow> rstrip (s @ [c]) = s @ [c]"
  by (simp add: rstrip_def)

lemma rstrip_spaces: "\<forall>c\<in>set ws. is_space c \<Longrightarrow> rstrip (s @ ws) = rstrip s"
  by (induction ws rule: rev_induct) (simp_all add: rstrip_def flip: append_assoc)

lemma rstrip_last: "rstrip s \<noteq> [] \<Longrightarrow> \<not> is_space (last (rstrip s))"
  unfolding rstrip_def
  by (metis (no_types) hd_dropWhile last_rev rev_is_Nil_conv)

lemma rstrip_fixed: "s \<noteq> [] \<Longrightarrow> \<not> is_space (last s) \<Longrightarrow> rstrip s = s"
  by (metis append_butlast_last_id rstrip_snoc)

lemma rstrip_set: "set (rstrip s) \<subseteq> set s"
  unfolding rstrip_def by (metis set_dropWhileD set_rev subsetI)

lemma endswith_single: "endswith s [c] \<longleftrightarrow> s \<noteq> [] \<and> last s = c"
  by (cases s rule: rev_cases) (auto simp: endswith_def)

subsection \<open>Lines\<close>

lemma split_nl_lines_no_nl: "l \<in> set (split_nl s) \<Longrightarrow> CHR 0x0A \<notin> set l"
proof (induction s arbitrary: l)
  case Nil
  then show ?case by simp
next
  case (Cons c cs)
  obtain k ks where sp: "split_nl cs = k # ks"
    using split_nl_nonempty [of cs] by (cases "split_nl cs") auto
  with Cons show ?case by (auto split: if_splits)
qed

lemma split_join_nl:
  "ls \<noteq> [] \<Longrightarrow> \<forall>l\<in>set ls. CHR 0x0A \<notin> set l \<Longrightarrow> split_nl (join_nl ls) = ls"
proof (induction ls rule: join_nl.induct)
  case 1
  then show ?case by simp
next
  case (2 l)
  then show ?case by (simp add: split_nl_no_nl)
next
  case (3 l m ls)
  then have "split_nl (join_nl (m # ls)) = m # ls" by simp
  moreover have "split_nl l = [l]" using 3 by (simp add: split_nl_no_nl)
  ultimately show ?case by (simp add: split_nl_append_nl)
qed

lemma split_nl_update:
  assumes "i < length (split_nl code)" and "CHR 0x0A \<notin> set new"
  shows "split_nl (join_nl ((split_nl code)[i := new])) = (split_nl code)[i := new]"
proof (rule split_join_nl)
  show "(split_nl code)[i := new] \<noteq> []" using split_nl_nonempty by simp
  show "\<forall>l\<in>set ((split_nl code)[i := new]). CHR 0x0A \<notin> set l"
    using assms split_nl_lines_no_nl by (auto dest!: set_update_subset_insert [THEN subsetD])
qed

subsection \<open>Searching\<close>

lemma find_from_spec:
  "(find_from sub s i = -1 \<and> (\<forall>j. \<not> occurs_at sub s j)) \<or>
   (\<exists>p. find_from sub s i = int (i + p) \<and> occurs_at sub s p \<and> (\<forall>j<p. \<not> occurs_at sub s j))"
proof (induction s arbitrary: i)
  case Nil
  show ?case by (auto simp: occurs_at_def)
next
  case (Cons c cs)
  show ?case
  proof (cases "prefix sub (c # cs)")
    case True
    then have "find_from sub (c # cs) i = int (i + 0) \<and> occurs_at sub (c # cs) 0"
      by (simp add: occurs_at_def)
    then show ?thesis by blast
  next
    case False
    have shift: "occurs_at sub (c # cs) j \<longleftrightarrow> (\<exists>k. j = Suc k \<and> occurs_at sub cs k)" for j
      using False by (cases j) (auto simp: occurs_at_def)
    from Cons [of "Suc i"] show ?thesis
    proof
      assume "find_from sub cs (Suc i) = -1 \<and> (\<forall>j. \<not> occurs_at sub cs j)"
      then show ?thesis using False shift by simp
    next
      assume "\<exists>p. find_from sub cs (Suc i) = int (Suc i + p) \<and> occurs_at sub cs p \<and>
                (\<forall>j<p. \<not> occurs_at sub cs j)"
      then obtain p where p: "find_from sub cs (Suc i) = int (Suc i + p)" "occurs_at sub cs p"
        "\<forall>j<p. \<not> occurs_at sub cs j" by blast
      have "find_from sub (c # cs) i = int (i + Suc p)" using False p(1) by simp
      moreover have "occurs_at sub (c # cs) (Suc p)" using p(2) shift by simp
      moreover have "\<forall>j<Suc p. \<not> occurs_at sub (c # cs) j" using p(3) shift by auto
      ultimately show ?thesis by blast
    qed
  qed
qed

lemma py_find_spec:
  "(py_find s sub = -1 \<and> (\<forall>j. \<not> occurs_at sub s j)) \<or>
   (\<exists>p. py_find s sub = int p \<and> occurs_at sub s p \<and> (\<forall>j<p. \<not> occurs_at sub s j))"
  using find_from_spec [of sub s 0] by (simp add: py_find_def)

lemma py_find_first:
  assumes "occurs_at sub s q" and "\<forall>j<q. \<not> occurs_at sub s j"
  shows "py_find s sub = int q"
  using py_find_spec [of s sub] assms by (metis linorder_neqE_nat)

lemma py_find_none: "\<forall>j. \<not> occurs_at sub s j \<Longrightarrow> py_find s sub = -1"
  using py_find_spec [of s sub] by blast

lemma first_marker_step:
  assumes "first_marker M s cp"
  shows "first_marker (insert m M) s (marker_step s m cp)"
proof -
  from py_find_spec [of s m] show ?thesis
  proof
    assume n: "py_find s m = -1 \<and> (\<forall>j. \<not> occurs_at m s j)"
    with assms show ?thesis by (auto simp: first_marker_def marker_step_def)
  next
    assume "\<exists>p. py_find s m = int p \<and> occurs_at m s p \<and> (\<forall>j<p. \<not> occurs_at m s j)"
    then obtain p where p: "py_find s m = int p" "occurs_at m s p" "\<forall>j<p. \<not> occurs_at m s j"
      by blast
    from assms consider
      (none) "cp = -1" "\<forall>m\<in>M. \<forall>j. \<not> occurs_at m s j" |
      (some) q where "cp = int q" "\<exists>m\<in>M. occurs_at m s q" "\<forall>m\<in>M. \<forall>j<q. \<not> occurs_at m s j"
      unfolding first_marker_def by blast
    then show ?thesis
    proof cases
      case none
      with p show ?thesis unfolding first_marker_def marker_step_def Let_def by auto
    next
      case some
      show ?thesis
      proof (cases "p < q")
        case True
        with p some show ?thesis unfolding first_marker_def marker_step_def Let_def
          by (auto intro!: exI [of _ p])
      next
        case False
        with p some show ?thesis unfolding first_marker_def marker_step_def Let_def
          by (auto intro!: exI [of _ q])
      qed
    qed
  qed
qed

lemma comment_pos_spec: "first_marker markers s (comment_pos_of s)"
proof -
  have 0: "first_marker {} s (-1)" by (simp add: first_marker_def)
  note 1 = first_marker_step [OF 0, of "''//''"]
  note 2 = first_marker_step [OF 1, of "''/*''"]
  note 3 = first_marker_step [OF 2, of "''#''"]
  have "markers = {''#'', ''/*'', ''//''}" by (auto simp: markers_def)
  with 3 show ?thesis by (simp add: comment_pos_of_def)
qed

lemma comment_pos_first:
  assumes "m \<in> markers" "occurs_at m s q" "\<forall>m\<in>markers. \<forall>j<q. \<not> occurs_at m s j"
  shows "comment_pos_of s = int q"
proof -
  from comment_pos_spec [of s] assms(1,2) obtain q' where q':
    "comment_pos_of s = int q'" "\<exists>m\<in>markers. occurs_at m s q'"
    "\<forall>m\<in>markers. \<forall>j<q'. \<not> occurs_at m s j"
    unfolding first_marker_def by blast
  have "q' = q" using q'(2,3) assms by (metis linorder_neqE_nat)
  with q'(1) show ?thesis by simp
qed

lemma marker_chars: "m \<in> markers \<Longrightarrow> m \<noteq> [] \<and> CHR '';'' \<notin> set m \<and> CHR '' '' \<notin> set m"
  by (auto simp: markers_def)

text \<open>An occurrence of a marker that starts inside \<open>b\<close> in \<open>b @ ";  " @ c\<close> lies within \<open>b\<close>.\<close>

lemma occurs_before_semicolon:
  assumes m: "m \<in> markers" and occ: "occurs_at m (b @ '';  '' @ c) j" and j: "j < length b + 3"
  shows "j < length b \<and> occurs_at m (b @ r) j"
proof -
  from marker_chars [OF m] obtain x xs where mx: "m = x # xs" "x \<noteq> CHR '';''" "x \<noteq> CHR '' ''"
    "CHR '';'' \<notin> set xs" by (cases m) auto
  have jb: "j < length b"
  proof (rule ccontr)
    assume "\<not> j < length b"
    then obtain k where k: "j = length b + k" "k < 3" using j by (metis le_Suc_ex not_less nat_add_left_cancel_less)
    then have "drop j (b @ '';  '' @ c) = drop k ('';  '' @ c)" by simp
    moreover from k(2) have "k = 0 \<or> k = 1 \<or> k = 2" by arith
    ultimately have "\<exists>t. drop j (b @ '';  '' @ c) = CHR '';'' # t \<or> drop j (b @ '';  '' @ c) = CHR '' '' # t"
      by auto
    with occ mx show False by (auto simp: occurs_at_def)
  qed
  then obtain d ds where d: "drop j b = d # ds" by (cases "drop j b") auto
  from occ jb have "prefix m (drop j b @ '';  '' @ c)" by (simp add: occurs_at_def)
  then have "prefix m (drop j b) \<or> (\<exists>us. m = drop j b @ us \<and> us \<noteq> [] \<and> prefix us ('';  '' @ c))"
    unfolding prefix_append [of m "drop j b"] by (metis append_Nil2 prefix_order.order_refl)
  then have "prefix m (drop j b)"
  proof
    assume "prefix m (drop j b)" then show ?thesis .
  next
    assume "\<exists>us. m = drop j b @ us \<and> us \<noteq> [] \<and> prefix us ('';  '' @ c)"
    then obtain us where us: "m = drop j b @ us" "us \<noteq> []" "prefix us ('';  '' @ c)" by blast
    then have "hd us = CHR '';''" by (cases us) auto
    with us(1,2) d mx have "CHR '';'' \<in> set xs" by (cases us) auto
    with mx show ?thesis by simp
  qed
  then have "prefix m (drop j (b @ r))" using jb by (simp add: prefix_prefix)
  with jb show ?thesis by (simp add: occurs_at_def)
qed

lemma comment_pos_after_insert:
  assumes cp: "comment_pos_of line = int p"
    and b: "b = rstrip (take p line)"
  shows "comment_pos_of (b @ '';  '' @ drop p line) = int (length b + 3)"
proof -
  from comment_pos_spec [of line] cp obtain m where m: "m \<in> markers" "occurs_at m line p"
    and first: "\<forall>m\<in>markers. \<forall>j<p. \<not> occurs_at m line j"
    unfolding first_marker_def by auto
  from rstrip_decomp [of "take p line"] b obtain ws where ws: "take p line = b @ ws" by blast
  then have line: "line = b @ (ws @ drop p line)" by (metis append_assoc append_take_drop_id)
  have "length (take p line) = p" using m(2) by (simp add: occurs_at_def)
  with ws have lb: "length b \<le> p" by (metis le_add1 length_append)
  show ?thesis
  proof (rule comment_pos_first [OF m(1)])
    show "occurs_at m (b @ '';  '' @ drop p line) (length b + 3)"
      using m(2) by (auto simp: occurs_at_def)
    show "\<forall>m\<in>markers. \<forall>j<length b + 3. \<not> occurs_at m (b @ '';  '' @ drop p line) j"
    proof (intro ballI allI impI notI)
      fix m' j assume m': "m' \<in> markers" and j: "j < length b + 3"
        and occ: "occurs_at m' (b @ '';  '' @ drop p line) j"
      from occurs_before_semicolon [OF m' occ j, of "ws @ drop p line"]
      have "j < length b" "occurs_at m' line j" using line by simp_all
      with first m' lb show False by auto
    qed
  qed
qed

text \<open>
  C6. When the text has exactly two more \<open>{\<close> than \<open>}\<close>, the handler of the
  diagnostic "reached end of file while parsing" returns the text followed by two
  lines that each consist of a single \<open>}\<close>; the original lines are unchanged and
  come first.
\<close>

theorem fix_eof_brace_two:
  assumes "count_chr code (CHR ''{'') = count_chr code (CHR ''}'') + 2"
  shows "rule_reached_end_of_file m code = code @ ''\<newline>}\<newline>}'' \<and>
         split_nl (rule_reached_end_of_file m code) = split_nl code @ [''}'', ''}'']"
proof -
  have oc: "int (count_chr code (CHR ''{'')) - int (count_chr code (CHR ''}'')) = 2"
    using assms by simp
  have rp: "replicate (nat 2) ''}'' = [''}''] @ [''}'']"
    by (simp add: numeral_2_eq_2)
  have "fix_eof_brace code = join_nl ((split_nl code @ [''}'']) @ [''}''])"
    unfolding fix_eof_brace_def Let_def oc rp by simp
  also have "\<dots> = join_nl (split_nl code @ [''}'']) @ ''\<newline>}''"
    by (subst join_nl_snoc) simp_all
  also have "\<dots> = (code @ ''\<newline>}'') @ ''\<newline>}''"
    by (subst join_nl_snoc) (simp_all add: split_nl_nonempty join_split_nl)
  finally have r: "fix_eof_brace code = code @ ''\<newline>}\<newline>}''" by simp
  have "split_nl (code @ CHR 0x0A # (''}'' @ CHR 0x0A # ''}'')) =
        split_nl code @ split_nl ''}'' @ split_nl ''}''"
    by (simp only: split_nl_append_nl)
  then have "split_nl (code @ ''\<newline>}\<newline>}'') = split_nl code @ [''}'', ''}'']"
    by simp
  with r show ?thesis by (simp only: rule_reached_end_of_file_def simp_thms)
qed

theorem fix_eof_brace_two_witness:
  "rule_reached_end_of_file ''error: reached end of file while parsing'' ''class A { void f() {''
     = ''class A { void f() {\<newline>}\<newline>}''"
proof -
  have h: "count_chr ''class A { void f() {'' (CHR ''{'') =
           count_chr ''class A { void f() {'' (CHR ''}'') + 2"
    by (simp add: count_chr_def)
  from fix_eof_brace_two [OF h, of "''error: reached end of file while parsing''"]
  have "rule_reached_end_of_file ''error: reached end of file while parsing''
          ''class A { void f() {'' = ''class A { void f() {'' @ ''\<newline>}\<newline>}''"
    by (rule conjunct1)
  then show ?thesis by simp
qed

lemma add_semicolon_in_range:
  assumes "0 < k" "k \<le> int (length (split_nl code))"
  shows "add_semicolon_at_line code (Some k) =
    (let lines = split_nl code; line = rstrip (lines ! (nat k - 1)) in
     if endswith line '';'' \<or> endswith line ''{'' \<or> endswith line ''}'' then code
     else if comment_pos_of line > 0 then
       (if rstrip (take (nat (comment_pos_of line)) line) \<noteq> [] \<and>
           \<not> endswith (rstrip (take (nat (comment_pos_of line)) line)) '';''
        then join_nl (lines[nat k - 1 := rstrip (take (nat (comment_pos_of line)) line) @ '';  '' @
                                       drop (nat (comment_pos_of line)) line])
        else code)
     else join_nl (lines[nat k - 1 := line @ '';'']))"
  using assms by (simp add: add_semicolon_at_line_def Let_def join_split_nl)

lemma add_semicolon_out_of_range:
  assumes "n = None \<or> (\<exists>k. n = Some k \<and> (k \<le> 0 \<or> int (length (split_nl code)) < k))"
  shows "add_semicolon_at_line code n = code"
  using assms by (auto simp: add_semicolon_at_line_def Let_def join_split_nl)

lemma add_semicolon_done:
  assumes "0 < k" "k \<le> int (length (split_nl code))"
    and "endswith (rstrip (split_nl code ! (nat k - 1))) '';''"
  shows "add_semicolon_at_line code (Some k) = code"
  using assms by (simp add: add_semicolon_in_range Let_def)

lemma add_semicolon_after_update:
  assumes k: "0 < k" "k \<le> int (length (split_nl code))"
    and nl: "CHR 0x0A \<notin> set new"
    and fixed: "rstrip new = new"
    and cases: "endswith new '';'' \<or>
       (\<not> endswith new ''{'' \<and> \<not> endswith new ''}'' \<and> comment_pos_of new > 0 \<and>
        endswith (rstrip (take (nat (comment_pos_of new)) new)) '';'')"
  shows "add_semicolon_at_line (join_nl ((split_nl code)[nat k - 1 := new])) (Some k) =
         join_nl ((split_nl code)[nat k - 1 := new])"
proof -
  let ?i = "nat k - 1"
  let ?code' = "join_nl ((split_nl code)[?i := new])"
  have i: "?i < length (split_nl code)" using k by auto
  have sp: "split_nl ?code' = (split_nl code)[?i := new]"
    using split_nl_update [OF i nl] .
  have k': "k \<le> int (length (split_nl ?code'))" using k sp by simp
  have line: "rstrip (split_nl ?code' ! ?i) = new" using sp i fixed by simp
  show ?thesis
    unfolding add_semicolon_in_range [OF k(1) k'] Let_def line
    using cases by auto
qed

lemma add_semicolon_idem_in_range:
  assumes k: "0 < k" "k \<le> int (length (split_nl code))"
  shows "add_semicolon_at_line (add_semicolon_at_line code (Some k)) (Some k) =
         add_semicolon_at_line code (Some k)"
proof -
  let ?i = "nat k - 1"
  let ?lines = "split_nl code"
  let ?line = "rstrip (?lines ! ?i)"
  let ?cp = "comment_pos_of ?line"
  let ?b = "rstrip (take (nat ?cp) ?line)"
  let ?c = "drop (nat ?cp) ?line"
  have i: "?i < length ?lines" using k by auto
  have nl_line: "CHR 0x0A \<notin> set ?line"
    using split_nl_lines_no_nl [of "?lines ! ?i" code] i rstrip_set [of "?lines ! ?i"] by auto
  note R = add_semicolon_in_range [OF k]
  show ?thesis
  proof (cases "endswith ?line '';'' \<or> endswith ?line ''{'' \<or> endswith ?line ''}''")
    case True
    then have "add_semicolon_at_line code (Some k) = code" by (simp add: R Let_def)
    then show ?thesis by simp
  next
    case notdone: False
    show ?thesis
    proof (cases "?cp > 0")
      case False
      then have r: "add_semicolon_at_line code (Some k) = join_nl (?lines[?i := ?line @ '';''])"
        using notdone by (simp add: R Let_def)
      have "add_semicolon_at_line (join_nl (?lines[?i := ?line @ '';''])) (Some k) =
            join_nl (?lines[?i := ?line @ '';''])"
      proof (rule add_semicolon_after_update [OF k])
        show "CHR 0x0A \<notin> set (?line @ '';'')" using nl_line by simp
        show "rstrip (?line @ '';'') = ?line @ '';''" by (rule rstrip_snoc) (simp add: is_space_def)
        show "endswith (?line @ '';'') '';'' \<or>
          (\<not> endswith (?line @ '';'') ''{'' \<and> \<not> endswith (?line @ '';'') ''}'' \<and>
           comment_pos_of (?line @ '';'') > 0 \<and>
           endswith (rstrip (take (nat (comment_pos_of (?line @ '';''))) (?line @ '';''))) '';'')"
          by (simp add: endswith_single)
      qed
      with r show ?thesis by simp
    next
      case cp: True
      show ?thesis
      proof (cases "?b \<noteq> [] \<and> \<not> endswith ?b '';''")
        case False
        then have "add_semicolon_at_line code (Some k) = code"
          using notdone cp by (auto simp: R Let_def)
        then show ?thesis by simp
      next
        case b: True
        let ?new = "?b @ '';  '' @ ?c"
        have r: "add_semicolon_at_line code (Some k) = join_nl (?lines[?i := ?new])"
          using notdone cp b by (simp add: R Let_def)
        obtain p where p: "?cp = int p" "p > 0" using cp zero_less_imp_eq_int by blast
        from comment_pos_spec [of ?line] p obtain m where m: "m \<in> markers" "occurs_at m ?line p"
          unfolding first_marker_def by auto
        have cne: "?c \<noteq> []" using m marker_chars [OF m(1)] p(1) by (auto simp: occurs_at_def)
        have line_ne: "?line \<noteq> []" using cne by auto
        have last_new: "last ?new = last ?line" using cne by simp
        have nsp: "\<not> is_space (last ?line)" using rstrip_last [OF line_ne] .
        have cpn: "comment_pos_of ?new = int (length ?b + 3)"
          using comment_pos_after_insert [of ?line p ?b] p(1) by simp
        have tk: "take (length ?b + 3) ?new = ?b @ '';  ''" by simp
        have rs: "rstrip (?b @ '';  '') = ?b @ '';''"
        proof -
          have "rstrip ((?b @ '';'') @ ''  '') = rstrip (?b @ '';'')"
            by (rule rstrip_spaces) (simp add: is_space_def)
          also have "\<dots> = ?b @ '';''" by (rule rstrip_snoc) (simp add: is_space_def)
          finally show ?thesis by simp
        qed
        have "add_semicolon_at_line (join_nl (?lines[?i := ?new])) (Some k) =
              join_nl (?lines[?i := ?new])"
        proof (rule add_semicolon_after_update [OF k])
          show "CHR 0x0A \<notin> set ?new"
            using nl_line rstrip_set [of "take (nat ?cp) ?line"]
            by (auto dest: in_set_takeD in_set_dropD)
          show "rstrip ?new = ?new"
            by (rule rstrip_fixed) (use last_new nsp in \<open>simp_all\<close>)
          have e1: "\<not> endswith ?new ''{''" "\<not> endswith ?new ''}''"
            using notdone line_ne unfolding endswith_single last_new by blast+
          have e2: "comment_pos_of ?new > 0" unfolding cpn by simp
          have "rstrip (take (nat (comment_pos_of ?new)) ?new) = ?b @ '';''"
            unfolding cpn nat_int tk rs ..
          then have e3: "endswith (rstrip (take (nat (comment_pos_of ?new)) ?new)) '';''"
            unfolding endswith_single by simp
          from e1 e2 e3
          show "endswith ?new '';'' \<or>
            (\<not> endswith ?new ''{'' \<and> \<not> endswith ?new ''}'' \<and> comment_pos_of ?new > 0 \<and>
             endswith (rstrip (take (nat (comment_pos_of ?new)) ?new)) '';'')"
            by blast
        qed
        with r show ?thesis by simp
      qed
    qed
  qed
qed

theorem add_semicolon_idempotent_total:
  "add_semicolon_at_line (add_semicolon_at_line code n) n = add_semicolon_at_line code n \<and>
   ((n = None \<or> (\<exists>k. n = Some k \<and> (k \<le> 0 \<or> int (length (split_nl code)) < k))) \<longrightarrow>
      add_semicolon_at_line code n = code)"
proof -
  have "add_semicolon_at_line (add_semicolon_at_line code n) n = add_semicolon_at_line code n"
  proof (cases "n = None \<or> (\<exists>k. n = Some k \<and> (k \<le> 0 \<or> int (length (split_nl code)) < k))")
    case True
    then show ?thesis by (simp add: add_semicolon_out_of_range)
  next
    case False
    then obtain k where "n = Some k" "0 < k" "k \<le> int (length (split_nl code))" by auto
    then show ?thesis by (simp add: add_semicolon_idem_in_range)
  qed
  then show ?thesis using add_semicolon_out_of_range by blast
qed

theorem add_semicolon_idempotent_total_witness:
  "add_semicolon_at_line (add_semicolon_at_line ''int x = 1  // c\<newline>y'' (Some 1)) (Some 1)
     = ''int x = 1;  // c\<newline>y'' \<and>
   add_semicolon_at_line ''int x = 1'' (Some 2) = ''int x = 1'' \<and>
   add_semicolon_at_line ''int x = 1'' None = ''int x = 1''"
proof -
  have e: "add_semicolon_at_line ''int x = 1  // c\<newline>y'' (Some 1) = ''int x = 1;  // c\<newline>y''"
    by (simp add: Let_def add_semicolon_at_line_def rstrip_def endswith_def comment_pos_of_def
        marker_step_def py_find_def is_space_def)
  have l: "int (length (split_nl ''int x = 1'')) < 2" by simp
  from add_semicolon_idempotent_total [of "''int x = 1  // c\<newline>y''" "Some 1"]
       add_semicolon_idempotent_total [of "''int x = 1''" "Some 2"]
       add_semicolon_idempotent_total [of "''int x = 1''" None] l e
  show ?thesis by simp
qed

subsection \<open>Substrings\<close>

lemma contains_iff_sublist: "contains s sub \<longleftrightarrow> sublist sub s"
proof
  assume "contains s sub"
  with py_find_spec [of s sub] obtain p where "occurs_at sub s p"
    by (auto simp: contains_def)
  then obtain r where "drop p s = sub @ r" by (auto simp: occurs_at_def prefix_def)
  then have "s = take p s @ sub @ r" by (metis append_take_drop_id)
  then show "sublist sub s" unfolding sublist_def by blast
next
  assume "sublist sub s"
  then obtain ps ss where s: "s = ps @ sub @ ss" unfolding sublist_def by blast
  then have "occurs_at sub s (length ps)" by (simp add: occurs_at_def)
  with py_find_spec [of s sub] show "contains s sub" by (auto simp: contains_def)
qed

lemma rstrip_prefix: "prefix (rstrip s) s"
  using rstrip_decomp [of s] by (metis prefixI)

lemma strip_sublist: "sublist (strip s) s"
proof -
  have "sublist (rstrip (lstrip s)) (lstrip s)" by (intro prefix_imp_sublist rstrip_prefix)
  moreover have "suffix (lstrip s) s" unfolding lstrip_def by (rule suffix_dropWhile)
  ultimately show ?thesis unfolding strip_def
    by (meson sublist_order.order_trans suffix_imp_sublist)
qed

lemma split_head_prefix: "prefix (split_head its prev s) s"
  by (induction s arbitrary: prev) (auto split: option.splits)

lemma no_comment_sublist: "sublist (no_comment s) s"
proof -
  have "sublist (re_split0 comment_pat (strip s)) (strip s)"
    unfolding re_split0_def by (intro prefix_imp_sublist split_head_prefix)
  then show ?thesis unfolding no_comment_def
    by (meson strip_sublist sublist_order.order_trans)
qed

lemma line_sublist_join: "l \<in> set ls \<Longrightarrow> sublist l (join_nl ls)"
proof (induction ls rule: join_nl.induct)
  case 1
  then show ?case by simp
next
  case (2 l')
  then show ?case by simp
next
  case (3 l' m ls)
  show ?case
  proof (cases "l = l'")
    case True
    then show ?thesis by (simp add: prefix_imp_sublist)
  next
    case False
    with 3 have "sublist l (join_nl (m # ls))" by simp
    then obtain ps ss where "join_nl (m # ls) = ps @ l @ ss" unfolding sublist_def by blast
    then have "join_nl (l' # m # ls) = (l' @ CHR 0x0A # ps) @ l @ ss" by simp
    then show ?thesis unfolding sublist_def by blast
  qed
qed

lemma line_sublist: "l \<in> set (split_nl code) \<Longrightarrow> sublist l code"
  using line_sublist_join [of l "split_nl code"] by (simp add: join_split_nl)

lemma indent_width: "length line - length (lstrip line) = length (takeWhile is_space line)"
proof -
  have "length (takeWhile is_space line) + length (dropWhile is_space line) = length line"
    by (metis length_append takeWhile_dropWhile_id)
  then show ?thesis by (simp add: lstrip_def)
qed

lemma replace_line_no_comment_first:
  assumes "i < length ls" "no_comment (ls ! i) = onc" "\<forall>j<i. no_comment (ls ! j) \<noteq> onc"
  shows "replace_line_no_comment onc new ls =
         Some (ls[i := replicate (length (takeWhile is_space (ls ! i))) (CHR '' '') @ no_comment new])"
  using assms
proof (induction ls arbitrary: i)
  case Nil
  then show ?case by simp
next
  case (Cons l ls)
  show ?case
  proof (cases i)
    case 0
    with Cons.prems show ?thesis by (simp add: indent_width)
  next
    case (Suc k)
    with Cons.prems have "no_comment l \<noteq> onc" by auto
    moreover have "replace_line_no_comment onc new ls =
         Some (ls[k := replicate (length (takeWhile is_space (ls ! k))) (CHR '' '') @ no_comment new])"
      using Cons.prems Suc by (intro Cons.IH) auto
    ultimately show ?thesis using Suc by auto
  qed
qed

text \<open>
  C5 (as amended). When the old snippet, its line-number prefix removed, is not empty and not
  a verbatim substring of the text, its comment-free form is not empty, and line \<open>i\<close> is the
  first line of the text whose comment-free form equals it, the Patch Applier replaces the
  whole of line \<open>i\<close>, its trailing comment included, by as many spaces as the line has
  leading whitespace characters followed by the comment-free form of the new snippet: the
  new snippet without its leading line-number prefix, without surrounding whitespace and
  without a trailing \<open>//\<close> comment. All other lines are unchanged. The new snippet is one in
  which digits followed by a colon occur in the leading line-number prefix only.
\<close>

theorem comment_stripped_match_replaces_line:
  assumes old: "old = strip_line_number_prefix (r_get r ''old'' ''search'')"
    and new: "strip_line_numbers (r_get r ''new'' ''replace'') =
              strip_line_number_prefix (r_get r ''new'' ''replace'')"
    and ne: "old \<noteq> []"
    and notin: "\<not> contains code old"
    and onc: "no_comment old \<noteq> []"
    and i: "i < length (split_nl code)"
    and eq: "no_comment (split_nl code ! i) = no_comment old"
    and first: "\<forall>j<i. no_comment (split_nl code ! j) \<noteq> no_comment old"
  shows "apply_replacements code [r] =
         join_nl ((split_nl code)[i :=
           replicate (length (takeWhile is_space (split_nl code ! i))) (CHR '' '') @
           no_comment (strip_line_number_prefix (r_get r ''new'' ''replace''))])"
proof -
  have "sublist (no_comment old) (split_nl code ! i)"
    using no_comment_sublist [of "split_nl code ! i"] eq by simp
  moreover have "sublist (split_nl code ! i) code" using i by (intro line_sublist) simp
  ultimately have c: "contains code (no_comment old)"
    unfolding contains_iff_sublist by (rule sublist_order.order_trans)
  note R = replace_line_no_comment_first [OF i eq first]
  have "apply_replacement code r = join_nl ((split_nl code)[i :=
           replicate (length (takeWhile is_space (split_nl code ! i))) (CHR '' '') @
           no_comment (strip_line_numbers (r_get r ''new'' ''replace''))])"
    unfolding apply_replacement_def Let_def old [symmetric]
    by (simp only: ne notin onc c R if_False if_True simp_thms option.case)
  then show ?thesis using new by (simp add: apply_replacements_def)
qed

theorem comment_stripped_match_replaces_line_witness:
  "apply_replacements ''a = 0\<newline>  x = 1  // note''
     [[''old'' \<mapsto> ''x = 1 // other'', ''new'' \<mapsto> ''x = 2'']] = ''a = 0\<newline>  x = 2''"
proof -
  let ?r = "[''old'' \<mapsto> ''x = 1 // other'', ''new'' \<mapsto> ''x = 2'']"
  let ?code = "''a = 0\<newline>  x = 1  // note''"
  have old: "''x = 1 // other'' = strip_line_number_prefix (r_get ?r ''old'' ''search'')"
    by (simp add: strip_line_number_prefix_def r_get_def line_number_pat_def is_digit_def)
  have new: "strip_line_numbers (r_get ?r ''new'' ''replace'') = ''x = 2''"
    by (simp add: strip_line_numbers_def r_get_def line_number_pat_def is_digit_def re_sub_def)
  have new': "strip_line_number_prefix (r_get ?r ''new'' ''replace'') = ''x = 2''"
    by (simp add: strip_line_number_prefix_def r_get_def line_number_pat_def is_digit_def)
  have nc1: "no_comment ''x = 1 // other'' = ''x = 1''"
    by (simp add: no_comment_def strip_def rstrip_def lstrip_def re_split0_def comment_pat_def
        is_space_def last_or_def)
  have nc2: "no_comment ''  x = 1  // note'' = ''x = 1''"
    by (simp add: no_comment_def strip_def rstrip_def lstrip_def re_split0_def comment_pat_def
        is_space_def last_or_def)
  have nc3: "no_comment ''a = 0'' = ''a = 0''"
    by (simp add: no_comment_def strip_def rstrip_def lstrip_def re_split0_def comment_pat_def
        is_space_def last_or_def)
  have nc4: "no_comment ''x = 2'' = ''x = 2''"
    by (simp add: no_comment_def strip_def rstrip_def lstrip_def re_split0_def comment_pat_def
        is_space_def last_or_def)
  have sp: "split_nl ?code = [''a = 0'', ''  x = 1  // note'']" by simp
  have notin: "\<not> contains ?code ''x = 1 // other''"
    by (simp add: contains_def py_find_def)
  have "apply_replacements ?code [?r] =
         join_nl ((split_nl ?code)[1 :=
           replicate (length (takeWhile is_space (split_nl ?code ! 1))) (CHR '' '') @
           no_comment (strip_line_number_prefix (r_get ?r ''new'' ''replace''))])"
  proof (rule comment_stripped_match_replaces_line [OF old])
    show "strip_line_numbers (r_get ?r ''new'' ''replace'') =
          strip_line_number_prefix (r_get ?r ''new'' ''replace'')"
      by (simp only: new new')
    show "''x = 1 // other'' \<noteq> []" by simp
    show "\<not> contains ?code ''x = 1 // other''" by (rule notin)
    show "no_comment ''x = 1 // other'' \<noteq> []" by (simp add: nc1)
    show "1 < length (split_nl ?code)" by (simp add: sp)
    show "no_comment (split_nl ?code ! 1) = no_comment ''x = 1 // other''"
      by (simp add: sp nc1 nc2)
    show "\<forall>j<1. no_comment (split_nl ?code ! j) \<noteq> no_comment ''x = 1 // other''"
      by (simp add: sp nc1 nc3)
  qed
  then show ?thesis by (simp add: sp new' nc4 is_space_def)
qed

text \<open>
  C5 (as stated) fails: the old snippet \<open>x = 1 // other\<close> is not a substring of the text
  \<open>  x = 1  // note\<close>, both have the comment-free form \<open>x = 1\<close>, and the result keeps the
  indentation but not the comment \<open>// note\<close> of the line.
\<close>

theorem comment_stripped_match_drops_comment:
  "\<not> contains ''  x = 1  // note'' ''x = 1 // other'' \<and>
   no_comment ''x = 1 // other'' = no_comment ''  x = 1  // note'' \<and>
   apply_replacements ''  x = 1  // note''
     [[''old'' \<mapsto> ''x = 1 // other'', ''new'' \<mapsto> ''x = 2'']] = ''  x = 2'' \<and>
   \<not> contains ''  x = 2'' ''// note''"
  by (simp add: apply_replacements_def apply_replacement_def r_get_def strip_line_number_prefix_def
      strip_line_numbers_def line_number_pat_def re_sub_def contains_def py_find_def
      no_comment_def strip_def rstrip_def lstrip_def re_split0_def comment_pat_def
      is_digit_def is_space_def last_or_def Let_def)

text \<open>
  C2. The new snippet loses every run \<open>digits ':' whitespace\<close>, not only a leading
  line-number prefix: the text \<open>x = 1\<close> with the candidate
  \<open>{"old": "x = 1", "new": "d = {1: 2}"}\<close> becomes \<open>d = {2}\<close>, not \<open>d = {1: 2}\<close>.
\<close>

theorem apply_replacements_mangles_new:
  "apply_replacements ''x = 1'' [[''old'' \<mapsto> ''x = 1'', ''new'' \<mapsto> ''d = {1: 2}'']] = ''d = {2}''"
  by (simp add: apply_replacements_def apply_replacement_def r_get_def strip_line_number_prefix_def
      strip_line_numbers_def line_number_pat_def re_sub_def contains_def py_find_def
      replace_first_def is_digit_def is_space_def last_or_def Let_def)

text \<open>What the first method does in general: the first occurrence of the old snippet is
  replaced by the new snippet as rewritten by \<open>strip_line_numbers\<close>.\<close>

lemma apply_replacements_exact:
  assumes old: "old = strip_line_number_prefix (r_get r ''old'' ''search'')"
    and ne: "old \<noteq> []" and c: "contains code old"
  shows "\<exists>pre post. code = pre @ old @ post \<and>
           (\<forall>j<length pre. \<not> occurs_at old code j) \<and>
           apply_replacements code [r] =
             pre @ strip_line_numbers (r_get r ''new'' ''replace'') @ post"
proof -
  from c py_find_spec [of code old] obtain p where p: "py_find code old = int p"
    "occurs_at old code p" "\<forall>j<p. \<not> occurs_at old code j"
    by (auto simp: contains_def)
  from p(2) obtain post where post: "drop p code = old @ post"
    by (auto simp: occurs_at_def prefix_def)
  have code: "code = take p code @ old @ post" using post by (metis append_take_drop_id)
  have lp: "length (take p code) = p" using p(2) by (simp add: occurs_at_def)
  have "drop (p + length old) code = post"
    using post by (metis add.commute append_eq_conv_conj drop_drop)
  then have "apply_replacements code [r] =
      take p code @ strip_line_numbers (r_get r ''new'' ''replace'') @ post"
    using ne c p(1)
    by (simp add: apply_replacements_def apply_replacement_def Let_def old [symmetric]
        replace_first_def)
  with code lp p(3) show ?thesis by metis
qed

lemma find_bracket_families_None:
  assumes "find P bracket_families = None"
  shows "\<not> P (''paren'', CHR ''('', CHR '')'')" "\<not> P (''bracket'', CHR ''['', CHR '']'')"
    "\<not> P (''brace'', CHR ''{'', CHR ''}'')"
  using assms by (auto simp: bracket_families_def split: if_splits)

lemma accepted_keeps_balance:
  assumes acc: "validate_fix_semantics original_code fixed_code lang = Accepted"
    and fam: "fam \<in> {(''paren'', CHR ''('', CHR '')''), (''bracket'', CHR ''['', CHR '']''),
                     (''brace'', CHR ''{'', CHR ''}'')}"
    and bal: "count_chr original_code (fst (snd fam)) = count_chr original_code (snd (snd fam))"
  shows "count_chr fixed_code (fst (snd fam)) = count_chr fixed_code (snd (snd fam))"
proof (cases "fixed_code = [] \<or> fixed_code = original_code")
  case True
  then show ?thesis using bal by (auto simp: count_chr_def)
next
  case False
  from acc False have "find (unbalanced_by_fix original_code fixed_code) bracket_families = None"
    by (auto simp: validate_fix_semantics_def Let_def split: if_splits option.splits)
  from find_bracket_families_None [OF this] fam bal show ?thesis
    by (auto simp: unbalanced_by_fix_def)
qed

text \<open>
  C3 (as amended). For every original text whose counts of \<open>(\<close> and \<open>)\<close> are equal, and
  likewise for \<open>[\<close> and \<open>]\<close> and for \<open>{\<close> and \<open>}\<close>, every patched text accepted by the
  validator has, for each of the three bracket families, equal open and close counts.
\<close>

theorem accepted_patch_stays_balanced:
  assumes "validate_fix_semantics original_code fixed_code lang = Accepted"
    and "count_chr original_code (CHR ''('') = count_chr original_code (CHR '')'')"
    and "count_chr original_code (CHR ''['') = count_chr original_code (CHR '']'')"
    and "count_chr original_code (CHR ''{'') = count_chr original_code (CHR ''}'')"
  shows "count_chr fixed_code (CHR ''('') = count_chr fixed_code (CHR '')'') \<and>
         count_chr fixed_code (CHR ''['') = count_chr fixed_code (CHR '']'') \<and>
         count_chr fixed_code (CHR ''{'') = count_chr fixed_code (CHR ''}'')"
  using accepted_keeps_balance [OF assms(1), of "(''paren'', CHR ''('', CHR '')'')"]
    accepted_keeps_balance [OF assms(1), of "(''bracket'', CHR ''['', CHR '']'')"]
    accepted_keeps_balance [OF assms(1), of "(''brace'', CHR ''{'', CHR ''}'')"]
    assms(2-4)
  by simp

lemma validate_paren_example:
  "validate_fix_semantics ''f(x)'' ''f((x))'' ''python'' = Accepted"
  by (simp add: validate_fix_semantics_def added_ids_def identifiers_def re_findall_def
      re_finditer_def identifier_pat_def word_opt_def head_opt_def last_or_def
      is_word_def is_ident_start_def is_ident_char_def is_digit_def is_space_def
      bracket_families_def unbalanced_by_fix_def count_chr_def critical_patterns_def
      validate_import_paths_def extract_python_imports_def re_groups_def is_module_char_def
      Let_def)

theorem accepted_patch_stays_balanced_witness:
  "count_chr ''f((x))'' (CHR ''('') = count_chr ''f((x))'' (CHR '')'') \<and>
   count_chr ''f((x))'' (CHR ''['') = count_chr ''f((x))'' (CHR '']'') \<and>
   count_chr ''f((x))'' (CHR ''{'') = count_chr ''f((x))'' (CHR ''}'')"
proof (rule accepted_patch_stays_balanced [OF validate_paren_example])
  show "count_chr ''f(x)'' (CHR ''('') = count_chr ''f(x)'' (CHR '')'')" by (simp add: count_chr_def)
  show "count_chr ''f(x)'' (CHR ''['') = count_chr ''f(x)'' (CHR '']'')" by (simp add: count_chr_def)
  show "count_chr ''f(x)'' (CHR ''{'') = count_chr ''f(x)'' (CHR ''}'')" by (simp add: count_chr_def)
qed

text \<open>
  C3 (as stated) fails: the original \<open>f(x)\<close> is balanced in all three families, the patched
  text \<open>f((x))\<close> is accepted, and its count of \<open>(\<close> is 2 where the original has 1.
\<close>

theorem accepted_patch_changes_counts:
  "validate_fix_semantics ''f(x)'' ''f((x))'' ''python'' = Accepted \<and>
   count_chr ''f(x)'' (CHR ''('') = count_chr ''f(x)'' (CHR '')'') \<and>
   count_chr ''f(x)'' (CHR ''['') = count_chr ''f(x)'' (CHR '']'') \<and>
   count_chr ''f(x)'' (CHR ''{'') = count_chr ''f(x)'' (CHR ''}'') \<and>
   count_chr ''f((x))'' (CHR ''('') \<noteq> count_chr ''f(x)'' (CHR ''('')"
  using validate_paren_example by (simp add: count_chr_def)

















lemma find_Some_if: "x \<in> set xs \<Longrightarrow> P x \<Longrightarrow> \<exists>y. find P xs = Some y \<and> P y"
  by (induction xs) auto






lemma rejected_differs:
  "validate_fix_semantics original_code fixed_code lang = Rejected r \<Longrightarrow>
   fixed_code \<noteq> original_code"
  by (auto simp: validate_fix_semantics_def)



lemma recovered_returned:
  assumes "validate_fix_semantics original_code fixed_code lang = Rejected (ImportTruncated pairs)"
    and "fix_python_import_truncated fixed_code t full = original_code"
  shows "recover_with original_code fixed_code lang (full, t) = (original_code, True)"
  using assms rejected_differs [OF assms(1)]
  by (simp add: recover_with_def validate_fix_semantics_def)














lemma try_rules_no_error_line:
  "try_local_fix_python [rule_cannot_assign_to] ''f(x)''
     ''  File t.py, line 1, in <module>\<newline>NameError: name f is not defined'' = (''f(x)'', False)"
  by (simp add: try_local_fix_python_def contains_def py_find_def)

lemma oracle_patch_applied:
  "apply_replacements ''f(x)'' [[''old'' \<mapsto> ''x'', ''new'' \<mapsto> ''(x'']] = ''f((x)''"
  by (simp add: apply_replacements_def apply_replacement_def r_get_def strip_line_number_prefix_def
      strip_line_numbers_def line_number_pat_def re_sub_def contains_def py_find_def
      replace_first_def is_digit_def is_space_def last_or_def Let_def)

lemma oracle_patch_rejected:
  "validate_fix_semantics ''f(x)'' ''f((x)'' ''python'' = Rejected (Unbalanced ''paren'')"
  by (simp add: validate_fix_semantics_def added_ids_def identifiers_def re_findall_def
      re_finditer_def identifier_pat_def word_opt_def head_opt_def last_or_def
      is_word_def is_ident_start_def is_ident_char_def is_digit_def
      bracket_families_def unbalanced_by_fix_def count_chr_def Let_def)

lemma example_iteration:
  "auto_fix_iteration traceback_session ''f(x)'' = (''f((x)'', Continue)"
  by (simp add: auto_fix_iteration_def error_msg_of_def traceback_session_def
      try_rules_no_error_line oracle_patch_applied Let_def)

text \<open>
  C1 (as amended). An iteration of the repair loop does not consult the Safety Validator.
  Whenever the program still fails, the Rule Engine reports no fix, the error context is
  not empty and the oracle returns candidates, the result of the Patch Applier on these
  candidates is the text after the iteration and the loop goes on, if that result differs
  from the text at hand; whenever the Rule Engine reports a fix, its text is the text
  after the iteration and the loop goes on. In every case the text after an iteration
  equals the text before it, or the result of the Rule Engine, or the result of the Patch
  Applier on the candidates of the oracle.
\<close>

theorem iteration_text_without_validator:
  "(\<not> (has_compile_cmd env \<and> \<not> fst (compile_code env code)) \<and>
    \<not> fst (run_code env code) \<and>
    try_local_fix env code (error_msg_of env code) = (code1, False) \<and>
    extract_error_context env code1 (error_msg_of env code) = (line_num, Some context) \<and>
    context \<noteq> [] \<and>
    call_llm_for_fix env (error_msg_of env code) context line_num = replacements \<and>
    replacements \<noteq> [] \<and>
    apply_replacements code1 replacements \<noteq> code1 \<longrightarrow>
      auto_fix_iteration env code = (apply_replacements code1 replacements, Continue)) \<and>
   (\<not> (has_compile_cmd env \<and> \<not> fst (compile_code env code)) \<and>
    \<not> fst (run_code env code) \<and>
    try_local_fix env code (error_msg_of env code) = (code1, True) \<longrightarrow>
      auto_fix_iteration env code = (code1, Continue)) \<and>
   (fst (auto_fix_iteration env code) = code \<or>
    fst (auto_fix_iteration env code) = fst (try_local_fix env code (error_msg_of env code)) \<or>
    (\<exists>context line_num.
       fst (auto_fix_iteration env code) =
         apply_replacements (fst (try_local_fix env code (error_msg_of env code)))
           (call_llm_for_fix env (error_msg_of env code) context line_num)))"
  by (auto simp: auto_fix_iteration_def Let_def split: prod.splits option.splits)

lemma example_session_facts:
  "\<not> (has_compile_cmd traceback_session \<and> \<not> fst (compile_code traceback_session ''f(x)'')) \<and>
   \<not> fst (run_code traceback_session ''f(x)'') \<and>
   try_local_fix traceback_session ''f(x)'' (error_msg_of traceback_session ''f(x)'') =
     (''f(x)'', False) \<and>
   extract_error_context traceback_session ''f(x)'' (error_msg_of traceback_session ''f(x)'') =
     (Some 1, Some ''>>> 1: f(x)'') \<and>
   call_llm_for_fix traceback_session (error_msg_of traceback_session ''f(x)'')
     ''>>> 1: f(x)'' (Some 1) = [[''old'' \<mapsto> ''x'', ''new'' \<mapsto> ''(x'']]"
  by (simp add: traceback_session_def error_msg_of_def try_rules_no_error_line)

theorem iteration_text_without_validator_witness:
  "\<not> (has_compile_cmd traceback_session \<and> \<not> fst (compile_code traceback_session ''f(x)'')) \<and>
   \<not> fst (run_code traceback_session ''f(x)'') \<and>
   try_local_fix traceback_session ''f(x)'' (error_msg_of traceback_session ''f(x)'') =
     (''f(x)'', False) \<and>
   extract_error_context traceback_session ''f(x)'' (error_msg_of traceback_session ''f(x)'') =
     (Some 1, Some ''>>> 1: f(x)'') \<and>
   call_llm_for_fix traceback_session (error_msg_of traceback_session ''f(x)'')
     ''>>> 1: f(x)'' (Some 1) = [[''old'' \<mapsto> ''x'', ''new'' \<mapsto> ''(x'']] \<and>
   apply_replacements ''f(x)'' [[''old'' \<mapsto> ''x'', ''new'' \<mapsto> ''(x'']] = ''f((x)'' \<and>
   auto_fix_iteration traceback_session ''f(x)'' = (''f((x)'', Continue)"
  using iteration_text_without_validator [of traceback_session "''f(x)''" "''f(x)''"
      "Some 1" "''>>> 1: f(x)''" "[[''old'' \<mapsto> ''x'', ''new'' \<mapsto> ''(x'']]"]
    example_session_facts oracle_patch_applied
  by simp

text \<open>
  C1 (as stated) fails: in the session above the text \<open>f(x)\<close> becomes \<open>f((x)\<close> in one
  iteration, and the validator rejects \<open>f((x)\<close> as a patch of \<open>f(x)\<close>, the parentheses
  being unbalanced by it.
\<close>

theorem iteration_keeps_rejected_patch:
  "fst (auto_fix_iteration traceback_session ''f(x)'') = ''f((x)'' \<and>
   ''f((x)'' \<noteq> ''f(x)'' \<and>
   validate_fix_semantics ''f(x)'' ''f((x)'' ''python'' = Rejected (Unbalanced ''paren'')"
  by (simp add: example_iteration oracle_patch_rejected)

subsection \<open>The choice of one pass\<close>

lemma sort_key_head:
  assumes "xs \<noteq> []"
  shows "\<exists>y ys. sort_key k xs = y # ys \<and> y \<in> set xs \<and> (\<forall>z\<in>set xs. k y \<le> k z)"
proof -
  have "sort_key k xs \<noteq> []" using assms by (metis length_0_conv length_sort)
  then obtain y ys where s: "sort_key k xs = y # ys" by (cases "sort_key k xs") auto
  have "sorted (map k (sort_key k xs))" by (rule sorted_sort_key)
  with s have "\<forall>z\<in>set ys. k y \<le> k z" by simp
  moreover have "set (y # ys) = set xs" using s by (metis set_sort)
  ultimately show ?thesis using s by auto
qed

lemma priority_head:
  assumes "xs \<noteq> []"
  shows "\<exists>y ys. sort_by_priority g xs = y # ys \<and> y \<in> set xs \<and>
           (\<forall>z\<in>set xs. priority g z \<le> priority g y)"
  using sort_key_head [OF assms, of "\<lambda>x. - int (priority g x)"]
  unfolding sort_by_priority_def by fastforce

lemma ready_subset: "x \<in> set (ready g visited) \<Longrightarrow> x \<in> set (nodes g) \<and> x \<notin> visited"
  by (simp add: ready_def)

lemma next_node_chosen:
  assumes "\<exists>n\<in>set (nodes g). n \<notin> visited"
  shows "\<exists>x xs. sort_by_priority g (candidates_of g visited) = x # xs \<and> chosen g visited x"
proof (cases "ready g visited = []")
  case True
  let ?rem = "filter (\<lambda>n. n \<notin> visited) (nodes g)"
  have "?rem \<noteq> []" using assms by (simp add: filter_empty_conv)
  from priority_head [OF this, of g] obtain y ys where y: "sort_by_priority g ?rem = y # ys"
    "y \<in> set ?rem" "\<forall>z\<in>set ?rem. priority g z \<le> priority g y" by blast
  have "candidates_of g visited = [y]" using True y(1) by (simp add: candidates_of_def)
  then have "sort_by_priority g (candidates_of g visited) = [y]"
    by (simp add: sort_by_priority_def)
  moreover have "chosen g visited y" using True y(2,3) by (simp add: chosen_def)
  ultimately show ?thesis by blast
next
  case False
  from priority_head [OF False, of g] obtain y ys where
    y: "sort_by_priority g (ready g visited) = y # ys" "y \<in> set (ready g visited)"
    "\<forall>z\<in>set (ready g visited). priority g z \<le> priority g y" by blast
  have "candidates_of g visited = ready g visited" using False by (simp add: candidates_of_def)
  moreover have "chosen g visited y" using False y(2,3) ready_subset [OF y(2)]
    by (simp add: chosen_def)
  ultimately show ?thesis using y(1) by auto
qed

subsection \<open>The loop\<close>

lemma card_nodes: "distinct (nodes g) \<Longrightarrow> card (set (nodes g)) = length g"
  using distinct_card [of "nodes g"] by (simp add: nodes_def)

lemma all_visited:
  assumes "distinct (nodes g)" "distinct result" "set result \<subseteq> set (nodes g)"
    and "\<not> length result < length g"
  shows "set result = set (nodes g)"
proof -
  have "card (set (nodes g)) = length g" using assms(1) by (rule card_nodes)
  moreover have "card (set result) = length result" using assms(2) by (simp add: distinct_card)
  ultimately have "card (set (nodes g)) \<le> card (set result)" using assms(4) by simp
  with assms(3) show ?thesis by (simp add: card_seteq)
qed

lemma some_unvisited:
  assumes "distinct (nodes g)" "distinct result" "set result \<subseteq> set (nodes g)"
    and "length result < length g"
  shows "\<exists>n\<in>set (nodes g). n \<notin> set result"
proof (rule ccontr)
  assume "\<not> (\<exists>n\<in>set (nodes g). n \<notin> set result)"
  then have "set (nodes g) \<subseteq> set result" by blast
  then have "card (set (nodes g)) \<le> card (set result)" by (simp add: card_mono)
  moreover have "card (set (nodes g)) = length g" using assms(1) by (rule card_nodes)
  moreover have "card (set result) = length result" using assms(2) by (simp add: distinct_card)
  ultimately show False using assms(4) by simp
qed

lemma topological_loop_result:
  assumes "distinct (nodes g)" "distinct result" "set result \<subseteq> set (nodes g)"
    and "visited = set result"
  shows "\<exists>r. topological_loop g visited result = Some r \<and> take (length result) r = result \<and>
           distinct r \<and> set r = set (nodes g) \<and>
           (\<forall>k. length result \<le> k \<and> k < length r \<longrightarrow> chosen g (set (take k r)) (r ! k))"
  using assms
proof (induction g visited result rule: topological_loop.induct)
  case (1 g visited result)
  show ?case
  proof (cases "length result < length g")
    case False
    have "set result = set (nodes g)" using all_visited [OF "1.prems"(1-3) False] .
    moreover have "topological_loop g visited result = Some result"
      using False by (subst topological_loop.simps) simp
    ultimately show ?thesis using "1.prems"(2) by auto
  next
    case True
    have "\<exists>n\<in>set (nodes g). n \<notin> visited"
      using some_unvisited [OF "1.prems"(1-3) True] "1.prems"(4) by simp
    from next_node_chosen [OF this] obtain x xs where
      x: "sort_by_priority g (candidates_of g visited) = x # xs" "chosen g visited x" by blast
    have xn: "x \<in> set (nodes g)" "x \<notin> set result" using x(2) "1.prems"(4) by (simp_all add: chosen_def)
    have "\<exists>r. topological_loop g (insert x visited) (result @ [x]) = Some r \<and>
            take (length (result @ [x])) r = result @ [x] \<and> distinct r \<and> set r = set (nodes g) \<and>
            (\<forall>k. length (result @ [x]) \<le> k \<and> k < length r \<longrightarrow> chosen g (set (take k r)) (r ! k))"
      using "1.prems" xn by (intro "1.IH" [OF True x(1)]) auto
    then obtain r where r: "topological_loop g (insert x visited) (result @ [x]) = Some r"
      "take (Suc (length result)) r = result @ [x]" "distinct r" "set r = set (nodes g)"
      "\<forall>k. Suc (length result) \<le> k \<and> k < length r \<longrightarrow> chosen g (set (take k r)) (r ! k)"
      by auto
    have loop: "topological_loop g visited result = Some r"
      using True x(1) r(1) by (subst topological_loop.simps) simp
    have "length (take (Suc (length result)) r) = Suc (length result)" using r(2) by simp
    then have len: "length result < length r" by simp
    have "take (length result) (take (Suc (length result)) r) = result"
      unfolding r(2) by simp
    then have tk: "take (length result) r = result" by (simp add: min_def)
    have "take (Suc (length result)) r ! length result = x" unfolding r(2) by simp
    then have nth: "r ! length result = x" by simp
    have "chosen g (set (take k r)) (r ! k)" if "length result \<le> k" "k < length r" for k
    proof (cases "k = length result")
      case True
      then show ?thesis using x(2) tk nth "1.prems"(4) by simp
    next
      case False
      with that r(5) show ?thesis by simp
    qed
    with loop tk r(3,4) show ?thesis by blast
  qed
qed

lemma topological_sort_result:
  assumes "distinct (nodes g)"
  shows "\<exists>r. topological_sort g = Some r \<and> distinct r \<and> set r = set (nodes g) \<and>
           (\<forall>k<length r. chosen g (set (take k r)) (r ! k))"
  using topological_loop_result [OF assms, of "[]" "{}"] by (auto simp: topological_sort_def)

subsection \<open>Acyclic graphs\<close>

lemma deps_of_in_graph: "d \<in> set (deps_of g n) \<Longrightarrow> \<exists>ds. (n, ds) \<in> set g \<and> d \<in> set ds"
proof -
  assume d: "d \<in> set (deps_of g n)"
  then obtain ds where "map_of g n = Some ds" "d \<in> set ds"
    by (cases "map_of g n") (auto simp: deps_of_def)
  then show ?thesis using map_of_SomeD by fastforce
qed

lemma finite_edges: "finite (edges g)"
proof -
  have "edges g \<subseteq> set (nodes g) \<times> set (concat (map snd g))"
    by (auto simp: edges_def dest!: deps_of_in_graph)
  then show ?thesis by (rule finite_subset) simp
qed

lemma closed_deps:
  assumes "closed_graph g" "d \<in> set (deps_of g n)"
  shows "d \<in> set (nodes g)"
proof -
  from deps_of_in_graph [OF assms(2)] obtain ds where "(n, ds) \<in> set g" "d \<in> set ds" by blast
  with assms(1) show ?thesis by (auto simp: closed_graph_def list_all_iff)
qed

lemma ready_exists:
  assumes "closed_graph g" "acyclic (edges g)" "n \<in> set (nodes g)" "n \<notin> visited"
  shows "ready g visited \<noteq> []"
proof -
  have "wf ((edges g)\<inverse>)" using finite_edges assms(2) by (rule finite_acyclic_wf_converse)
  moreover have "n \<in> set (nodes g) - visited" using assms(3,4) by simp
  ultimately obtain z where z: "z \<in> set (nodes g) - visited"
    "\<And>y. (y, z) \<in> (edges g)\<inverse> \<Longrightarrow> y \<notin> set (nodes g) - visited"
    by (rule wfE_min) blast
  have "d \<in> visited" if "d \<in> set (deps_of g z)" for d
  proof -
    have "(d, z) \<in> (edges g)\<inverse>" using that z(1) by (simp add: edges_def)
    then have "d \<notin> set (nodes g) - visited" by (rule z(2))
    moreover have "d \<in> set (nodes g)" using assms(1) that by (rule closed_deps)
    ultimately show ?thesis by simp
  qed
  then have "filter (\<lambda>d. d \<notin> visited) (deps_of g z) = []" by (simp add: filter_empty_conv)
  with z(1) have "z \<in> set (ready g visited)" by (simp add: ready_def)
  then show ?thesis by auto
qed

lemma index_of_nth: "x \<in> set xs \<Longrightarrow> index_of xs x < length xs \<and> xs ! index_of xs x = x"
  by (induction xs) auto

lemma index_of_take: "x \<in> set (take k xs) \<Longrightarrow> index_of xs x < k"
proof (induction xs arbitrary: k)
  case Nil
  then show ?case by simp
next
  case (Cons y ys)
  then show ?case by (cases k) auto
qed

lemma chosen_after_deps:
  assumes "closed_graph g" "acyclic (edges g)"
    and r: "\<forall>k<length r. chosen g (set (take k r)) (r ! k)"
    and n: "n \<in> set r" and d: "d \<in> set (deps_of g n)"
  shows "index_of r d < index_of r n"
proof -
  let ?k = "index_of r n"
  from index_of_nth [OF n] have k: "?k < length r" "r ! ?k = n" by simp_all
  with r have c: "chosen g (set (take ?k r)) n" by metis
  then have "n \<in> set (nodes g)" "n \<notin> set (take ?k r)" by (simp_all add: chosen_def)
  with assms(1,2) have "ready g (set (take ?k r)) \<noteq> []" by (rule ready_exists)
  with c have "n \<in> set (ready g (set (take ?k r)))" by (simp add: chosen_def)
  then have "filter (\<lambda>d. d \<notin> set (take ?k r)) (deps_of g n) = []" by (simp add: ready_def)
  with d have "d \<in> set (take ?k r)" by (auto simp: filter_empty_conv)
  then show ?thesis by (rule index_of_take)
qed

lemma acyclic_by_rank:
  assumes "\<forall>(x, y)\<in>r. f y < (f x :: nat)"
  shows "acyclic r"
proof -
  have "r\<inverse> \<subseteq> measure f" using assms by auto
  then have "wf (r\<inverse>)" by (rule wf_subset [OF wf_measure])
  then have "acyclic (r\<inverse>)" by (rule wf_acyclic)
  then show ?thesis by simp
qed

subsection \<open>The priority of a node is its count of dependents\<close>

lemma count_in_distinct:
  "distinct ds \<Longrightarrow> length (filter (\<lambda>d. d = n) ds) = (if n \<in> set ds then 1 else 0)"
  by (induction ds) auto

lemma length_reverse_deps:
  assumes "\<forall>x\<in>set xs. distinct (f x)"
  shows "length (concat (map (\<lambda>x. filter (\<lambda>d. d = n) (f x)) xs)) =
         length (filter (\<lambda>x. n \<in> set (f x)) xs)"
  using assms by (induction xs) (simp_all add: count_in_distinct)

lemma deps_of_distinct:
  assumes "no_repeated_deps g"
  shows "distinct (deps_of g m)"
proof (cases "map_of g m")
  case None
  then show ?thesis by (simp add: deps_of_def)
next
  case (Some ds)
  then have "(m, ds) \<in> set g" by (rule map_of_SomeD)
  then have "distinct ds" using assms by (auto simp: no_repeated_deps_def list_all_iff)
  then show ?thesis using Some by (simp add: deps_of_def)
qed

lemma priority_eq_dependents:
  assumes "distinct (nodes g)" "no_repeated_deps g" "n \<in> set (nodes g)"
  shows "priority g n = card (spec_dependents g n)"
proof -
  have "priority g n = length (filter (\<lambda>m. n \<in> set (deps_of g m)) (nodes g))"
    using assms(3) length_reverse_deps [of "nodes g" "deps_of g" n] deps_of_distinct [OF assms(2)]
    by (simp add: priority_def reverse_deps_def)
  also have "\<dots> = card (set (filter (\<lambda>m. n \<in> set (deps_of g m)) (nodes g)))"
    using distinct_card [of "filter (\<lambda>m. n \<in> set (deps_of g m)) (nodes g)"] assms(1)
    by (simp only: distinct_filter)
  also have "set (filter (\<lambda>m. n \<in> set (deps_of g m)) (nodes g)) = spec_dependents g n"
    by (auto simp: spec_dependents_def)
  finally show ?thesis .
qed

lemma ready_iff:
  "n \<in> set (ready g visited) \<longleftrightarrow>
     n \<in> set (nodes g) \<and> n \<notin> visited \<and> set (deps_of g n) \<subseteq> visited"
  by (auto simp: ready_def filter_empty_conv)

lemma ready_empty_iff:
  "ready g visited = [] \<longleftrightarrow>
     (\<forall>n\<in>set (nodes g) - visited. \<not> set (deps_of g n) \<subseteq> visited)"
proof -
  have "ready g visited = [] \<longleftrightarrow> (\<forall>n. n \<notin> set (ready g visited))" by auto
  then show ?thesis unfolding ready_iff by blast
qed

lemma chosen_by_dependents:
  assumes d: "distinct (nodes g)" and nr: "no_repeated_deps g"
    and ch: "chosen g visited x"
    and m: "m \<in> set (nodes g) - visited"
    and c: "(\<forall>n\<in>set (nodes g) - visited. \<not> set (deps_of g n) \<subseteq> visited) \<or>
            set (deps_of g m) \<subseteq> visited"
  shows "card (spec_dependents g m) \<le> card (spec_dependents g x)"
proof -
  have x: "x \<in> set (nodes g)" using ch by (simp add: chosen_def)
  have mn: "m \<in> set (nodes g)" using m by simp
  have "priority g m \<le> priority g x"
  proof (cases "ready g visited = []")
    case True
    then show ?thesis using ch m by (simp add: chosen_def)
  next
    case False
    then have "set (deps_of g m) \<subseteq> visited" using c ready_empty_iff [of g visited] by blast
    then have "m \<in> set (ready g visited)" using m by (simp add: ready_iff)
    then show ?thesis using ch False by (simp add: chosen_def)
  qed
  then show ?thesis
    using priority_eq_dependents [OF d nr x] priority_eq_dependents [OF d nr mn] by simp
qed

lemma chosen_ready:
  assumes "chosen g visited x"
    and "\<exists>n\<in>set (nodes g) - visited. set (deps_of g n) \<subseteq> visited"
  shows "set (deps_of g x) \<subseteq> visited"
proof -
  have "ready g visited \<noteq> []" using assms(2) ready_empty_iff [of g visited] by blast
  then have "x \<in> set (ready g visited)" using assms(1) by (simp add: chosen_def)
  then show ?thesis by (simp add: ready_iff)
qed

text \<open>
  C7. For every dependency graph (a dict, so its keys are distinct), \<open>topological_sort\<close>
  returns a list in which each node of the graph appears exactly once. When the graph is
  acyclic, its dependency lists naming nodes of the graph only, every node appears strictly
  after all entries of its dependency list. Whether or not the graph has a cycle every
  node appears exactly once. At each position where some remaining node has all its
  dependencies placed, the node placed there is such a node. For a graph whose dependency
  lists name no node twice, a cycle is broken by the highest count of dependents: at each
  position where no remaining node has all its dependencies placed, no remaining node has
  more dependents than the node placed there; and at every position, no remaining node
  with all its dependencies placed has more dependents than the node placed there.
\<close>

theorem topological_sort_order:
  assumes "distinct (nodes g)"
  shows "\<exists>r. topological_sort g = Some r \<and> distinct r \<and> set r = set (nodes g) \<and>
           (closed_graph g \<and> acyclic (edges g) \<longrightarrow>
              (\<forall>n\<in>set (nodes g). \<forall>d\<in>set (deps_of g n). index_of r d < index_of r n)) \<and>
           (\<forall>k<length r.
              (\<exists>n\<in>set (nodes g) - set (take k r). set (deps_of g n) \<subseteq> set (take k r)) \<longrightarrow>
              set (deps_of g (r ! k)) \<subseteq> set (take k r)) \<and>
           (no_repeated_deps g \<longrightarrow>
              (\<forall>k<length r. \<forall>m\<in>set (nodes g) - set (take k r).
                 (\<forall>n\<in>set (nodes g) - set (take k r). \<not> set (deps_of g n) \<subseteq> set (take k r)) \<or>
                 set (deps_of g m) \<subseteq> set (take k r) \<longrightarrow>
                 card (spec_dependents g m) \<le> card (spec_dependents g (r ! k))))"
proof -
  from topological_sort_result [OF assms] obtain r where r: "topological_sort g = Some r"
    "distinct r" "set r = set (nodes g)" "\<forall>k<length r. chosen g (set (take k r)) (r ! k)"
    by blast
  have "index_of r d < index_of r n"
    if "closed_graph g" "acyclic (edges g)" "n \<in> set (nodes g)" "d \<in> set (deps_of g n)" for n d
    using chosen_after_deps [OF that(1,2) r(4) _ that(4)] that(3) r(3) by simp
  moreover have "set (deps_of g (r ! k)) \<subseteq> set (take k r)"
    if "k < length r" "\<exists>n\<in>set (nodes g) - set (take k r). set (deps_of g n) \<subseteq> set (take k r)"
    for k
    using chosen_ready [of g "set (take k r)" "r ! k"] r(4) that by blast
  moreover have "card (spec_dependents g m) \<le> card (spec_dependents g (r ! k))"
    if "no_repeated_deps g" "k < length r" "m \<in> set (nodes g) - set (take k r)"
      "(\<forall>n\<in>set (nodes g) - set (take k r). \<not> set (deps_of g n) \<subseteq> set (take k r)) \<or>
       set (deps_of g m) \<subseteq> set (take k r)" for k m
    using chosen_by_dependents [OF assms that(1) _ that(3,4)] r(4) that(2) by blast
  ultimately show ?thesis using r(1-3) by blast
qed

lemma sort_chain_example:
  "topological_sort [(''a.py'', [''b.py'']), (''b.py'', [''c.py'']), (''c.py'', [])] =
     Some [''c.py'', ''b.py'', ''a.py'']"
  by (simp add: topological_sort_def topological_loop.simps candidates_of_def ready_def nodes_def
      deps_of_def sort_by_priority_def priority_def reverse_deps_def)

lemma sort_cycle_example:
  "topological_sort [(''a.py'', [''b.py'']), (''b.py'', [''a.py'']), (''c.py'', [''b.py''])] =
     Some [''b.py'', ''a.py'', ''c.py'']"
  by (simp add: topological_sort_def topological_loop.simps candidates_of_def ready_def nodes_def
      deps_of_def sort_by_priority_def priority_def reverse_deps_def)

theorem topological_sort_order_witness:
  "distinct (nodes [(''a.py'', [''b.py'']), (''b.py'', [''c.py'']), (''c.py'', [])]) \<and>
   closed_graph [(''a.py'', [''b.py'']), (''b.py'', [''c.py'']), (''c.py'', [])] \<and>
   acyclic (edges [(''a.py'', [''b.py'']), (''b.py'', [''c.py'']), (''c.py'', [])]) \<and>
   (\<exists>r. topological_sort [(''a.py'', [''b.py'']), (''b.py'', [''c.py'']), (''c.py'', [])] = Some r \<and>
        r = [''c.py'', ''b.py'', ''a.py''] \<and>
        index_of r ''c.py'' < index_of r ''b.py'' \<and> index_of r ''b.py'' < index_of r ''a.py'') \<and>
   distinct (nodes [(''a.py'', [''b.py'']), (''b.py'', [''a.py'']), (''c.py'', [''b.py''])]) \<and>
   no_repeated_deps [(''a.py'', [''b.py'']), (''b.py'', [''a.py'']), (''c.py'', [''b.py''])] \<and>
   deps_of [(''a.py'', [''b.py'']), (''b.py'', [''a.py'']), (''c.py'', [''b.py''])] ''a.py'' = [''b.py''] \<and>
   deps_of [(''a.py'', [''b.py'']), (''b.py'', [''a.py'']), (''c.py'', [''b.py''])] ''b.py'' = [''a.py''] \<and>
   deps_of [(''a.py'', [''b.py'']), (''b.py'', [''a.py'']), (''c.py'', [''b.py''])] ''c.py'' = [''b.py''] \<and>
   card (spec_dependents [(''a.py'', [''b.py'']), (''b.py'', [''a.py'']), (''c.py'', [''b.py''])] ''b.py'') = 2 \<and>
   card (spec_dependents [(''a.py'', [''b.py'']), (''b.py'', [''a.py'']), (''c.py'', [''b.py''])] ''a.py'') = 1 \<and>
   card (spec_dependents [(''a.py'', [''b.py'']), (''b.py'', [''a.py'']), (''c.py'', [''b.py''])] ''c.py'') = 0 \<and>
   (\<exists>r. topological_sort [(''a.py'', [''b.py'']), (''b.py'', [''a.py'']), (''c.py'', [''b.py''])] = Some r \<and>
        r = [''b.py'', ''a.py'', ''c.py''] \<and> r ! 0 = ''b.py'')"
proof -
  let ?g = "[(''a.py'', [''b.py'']), (''b.py'', [''c.py'']), (''c.py'', [])]"
  let ?h = "[(''a.py'', [''b.py'']), (''b.py'', [''a.py'']), (''c.py'', [''b.py''])]"
  have dg: "distinct (nodes ?g)" and dh: "distinct (nodes ?h)" by (simp_all add: nodes_def)
  have cg: "closed_graph ?g" by (simp add: closed_graph_def nodes_def)
  have eg: "edges ?g = {(''a.py'', ''b.py''), (''b.py'', ''c.py'')}"
    by (auto simp: edges_def nodes_def deps_of_def split: if_splits)
  have ag: "acyclic (edges ?g)"
    unfolding eg by (rule acyclic_by_rank [where f = "index_of [''c.py'', ''b.py'', ''a.py'']"]) simp
  have ng: "set (nodes ?g) = {''a.py'', ''b.py'', ''c.py''}" by (simp add: nodes_def)
  from topological_sort_order [OF dg] cg ag obtain r where r: "topological_sort ?g = Some r"
    "\<forall>n\<in>set (nodes ?g). \<forall>d\<in>set (deps_of ?g n). index_of r d < index_of r n"
    by blast
  have "index_of r ''c.py'' < index_of r ''b.py''"
    using r(2) ng by (simp add: deps_of_def)
  moreover have "index_of r ''b.py'' < index_of r ''a.py''"
    using r(2) ng by (simp add: deps_of_def)
  moreover have "r = [''c.py'', ''b.py'', ''a.py'']" using r(1) by (simp add: sort_chain_example)
  ultimately have 1: "\<exists>r. topological_sort ?g = Some r \<and> r = [''c.py'', ''b.py'', ''a.py''] \<and>
        index_of r ''c.py'' < index_of r ''b.py'' \<and> index_of r ''b.py'' < index_of r ''a.py''"
    using r(1) by blast
  have nh: "set (nodes ?h) = {''a.py'', ''b.py'', ''c.py''}" by (simp add: nodes_def)
  have nr: "no_repeated_deps ?h" by (simp add: no_repeated_deps_def)
  have deps: "deps_of ?h ''a.py'' = [''b.py'']" "deps_of ?h ''b.py'' = [''a.py'']"
    "deps_of ?h ''c.py'' = [''b.py'']"
    by (simp_all add: deps_of_def)
  have stuck: "\<forall>n\<in>set (nodes ?h) - {}. \<not> set (deps_of ?h n) \<subseteq> {}"
    using deps by (simp add: nodes_def)
  have "spec_dependents ?h ''b.py'' = {''a.py'', ''c.py''}"
    by (auto simp: spec_dependents_def nodes_def deps_of_def split: if_splits)
  then have db: "card (spec_dependents ?h ''b.py'') = 2" by simp
  have "spec_dependents ?h ''a.py'' = {''b.py''}"
    by (auto simp: spec_dependents_def nodes_def deps_of_def split: if_splits)
  then have da: "card (spec_dependents ?h ''a.py'') = 1" by simp
  have "spec_dependents ?h ''c.py'' = {}"
    by (auto simp: spec_dependents_def nodes_def deps_of_def split: if_splits)
  then have dc: "card (spec_dependents ?h ''c.py'') = 0" by simp
  from topological_sort_order [OF dh] nr obtain s where s: "topological_sort ?h = Some s"
    "distinct s" "set s = set (nodes ?h)"
    "\<forall>k<length s. \<forall>m\<in>set (nodes ?h) - set (take k s).
       (\<forall>n\<in>set (nodes ?h) - set (take k s). \<not> set (deps_of ?h n) \<subseteq> set (take k s)) \<or>
       set (deps_of ?h m) \<subseteq> set (take k s) \<longrightarrow>
       card (spec_dependents ?h m) \<le> card (spec_dependents ?h (s ! k))"
    by blast
  have "length s = card (set s)" using s(2) by (simp add: distinct_card)
  then have len: "0 < length s" using s(3) nh by simp
  have "''b.py'' \<in> set (nodes ?h) - set (take 0 s)" using nh by simp
  moreover have "\<forall>n\<in>set (nodes ?h) - set (take 0 s). \<not> set (deps_of ?h n) \<subseteq> set (take 0 s)"
    using stuck by simp
  ultimately have "card (spec_dependents ?h ''b.py'') \<le> card (spec_dependents ?h (s ! 0))"
    using s(4) len by blast
  then have two: "2 \<le> card (spec_dependents ?h (s ! 0))" using db by simp
  have "s ! 0 \<in> set s" using len by simp
  then have "s ! 0 = ''a.py'' \<or> s ! 0 = ''b.py'' \<or> s ! 0 = ''c.py''" using s(3) nh by simp
  then have head: "s ! 0 = ''b.py''" using two da dc by auto
  have "s = [''b.py'', ''a.py'', ''c.py'']" using s(1) by (simp add: sort_cycle_example)
  then have 2: "\<exists>r. topological_sort ?h = Some r \<and> r = [''b.py'', ''a.py'', ''c.py''] \<and>
        r ! 0 = ''b.py''"
    using s(1) head by blast
  from dg cg ag 1 dh nr deps db da dc 2 show ?thesis by (intro conjI)
qed

subsection \<open>One hint\<close>

lemma apply_fixit_splice:
  assumes "l = le" "0 < l" "l \<le> int (length ls)"
  shows "fst (apply_fixit (l, cs, le, ce, r) (ls, b)) =
         ls[nat l - 1 := splice (l, cs, le, ce, r) (ls ! (nat l - 1))]"
  using assms by (simp add: apply_fixit_def splice_def Let_def)

lemma splice_in_range:
  assumes "1 \<le> cs" "cs \<le> ce" "ce \<le> int (length cur) + 1"
  shows "splice (l, cs, le, ce, r) cur = take (nat (cs - 1)) cur @ r @ drop (nat (ce - 1)) cur"
  using assms by (simp add: splice_def slice_to_def slice_from_def)

subsection \<open>The hints of one line, from right to left\<close>

lemma fold_splice_spec:
  assumes "sorted_wrt (\<lambda>f g. fst (snd (snd (snd g))) \<le> fst (snd f)) hs"
    and "\<forall>h\<in>set hs. 1 \<le> fst (snd h) \<and> fst (snd h) \<le> fst (snd (snd (snd h))) \<and>
                     fst (snd (snd (snd h))) \<le> p"
    and "1 \<le> p" "p \<le> int (length line) + 1"
  shows "fold splice hs (take (nat (p - 1)) line @ rest) = spec_line line p hs @ rest"
  using assms
proof (induction hs arbitrary: p rest)
  case Nil
  then show ?case by simp
next
  case (Cons h hs)
  obtain l cs le ce r where h: "h = (l, cs, le, ce, r)" by (cases h) auto
  from Cons.prems(2) h have b: "1 \<le> cs" "cs \<le> ce" "ce \<le> p" by auto
  let ?cur = "take (nat (p - 1)) line @ rest"
  have lt: "length (take (nat (p - 1)) line) = nat (p - 1)" using Cons.prems(3,4) by simp
  have "ce \<le> int (length ?cur) + 1" using b(3) Cons.prems(3) lt by simp
  from splice_in_range [OF b(1,2) this]
  have "splice h ?cur = take (nat (cs - 1)) ?cur @ r @ drop (nat (ce - 1)) ?cur"
    unfolding h .
  moreover have "take (nat (cs - 1)) ?cur = take (nat (cs - 1)) line"
    using b Cons.prems(3) lt by (simp add: min_def)
  moreover have "drop (nat (ce - 1)) ?cur =
      take (nat (p - ce)) (drop (nat (ce - 1)) line) @ rest"
  proof -
    have "nat (ce - 1) \<le> nat (p - 1)" using b by simp
    then have "drop (nat (ce - 1)) ?cur = drop (nat (ce - 1)) (take (nat (p - 1)) line) @ rest"
      using lt by simp
    moreover have "nat (p - 1) - nat (ce - 1) = nat (p - ce)" using b by simp
    ultimately show ?thesis by (simp add: drop_take)
  qed
  ultimately have step: "splice h ?cur =
      take (nat (cs - 1)) line @ (r @ take (nat (p - ce)) (drop (nat (ce - 1)) line) @ rest)"
    by simp
  have "fold splice hs (take (nat (cs - 1)) line @
          (r @ take (nat (p - ce)) (drop (nat (ce - 1)) line) @ rest)) =
        spec_line line cs hs @ (r @ take (nat (p - ce)) (drop (nat (ce - 1)) line) @ rest)"
  proof (rule Cons.IH)
    show "sorted_wrt (\<lambda>f g. fst (snd (snd (snd g))) \<le> fst (snd f)) hs"
      using Cons.prems(1) by simp
    show "\<forall>h\<in>set hs. 1 \<le> fst (snd h) \<and> fst (snd h) \<le> fst (snd (snd (snd h))) \<and>
                     fst (snd (snd (snd h))) \<le> cs"
      using Cons.prems(1,2) h by auto
    show "1 \<le> cs" by (rule b(1))
    show "cs \<le> int (length line) + 1" using b Cons.prems(4) by simp
  qed
  then show ?case unfolding h by (simp add: step [unfolded h])
qed

subsection \<open>All hints: every line on its own\<close>

lemma hints_of_line_Cons:
  "hints_of_line (h # hs) i = (if fst h = int i + 1 then h # hints_of_line hs i else hints_of_line hs i)"
  by (simp add: hints_of_line_def)

lemma fold_apply_fixit_lines:
  assumes "\<forall>h\<in>set hs. fst h = fst (snd (snd h)) \<and> 0 < fst h \<and> fst h \<le> int (length ls)"
  shows "fst (fold apply_fixit hs (ls, b)) =
         map (\<lambda>i. fold splice (hints_of_line hs i) (ls ! i)) [0..<length ls]"
  using assms
proof (induction hs arbitrary: ls b)
  case Nil
  then show ?case by (simp add: hints_of_line_def map_nth)
next
  case (Cons h hs)
  obtain l cs le ce r where h: "h = (l, cs, le, ce, r)" by (cases h) auto
  from Cons.prems h have l: "l = le" "0 < l" "l \<le> int (length ls)" by auto
  let ?j = "nat l - 1"
  let ?ls = "ls[?j := splice h (ls ! ?j)]"
  have j: "?j < length ls" "int ?j + 1 = l" using l by auto
  have "fst (apply_fixit h (ls, b)) = ?ls"
    unfolding h by (rule apply_fixit_splice [OF l])
  then obtain b' where st: "apply_fixit h (ls, b) = (?ls, b')"
    by (cases "apply_fixit h (ls, b)") auto
  have "fst (fold apply_fixit hs (?ls, b')) =
        map (\<lambda>i. fold splice (hints_of_line hs i) (?ls ! i)) [0..<length ?ls]"
    using Cons.prems by (intro Cons.IH) auto
  moreover have "fold splice (hints_of_line hs i) (?ls ! i) =
                 fold splice (hints_of_line (h # hs) i) (ls ! i)" if "i < length ls" for i
  proof (cases "i = ?j")
    case True
    then show ?thesis using j h by (simp add: hints_of_line_Cons)
  next
    case False
    then have "fst h \<noteq> int i + 1" using j h l by auto
    with False show ?thesis by (simp add: hints_of_line_Cons)
  qed
  ultimately show ?case by (simp add: st)
qed

subsection \<open>The order of the hints\<close>

lemma fixits_sorted_set: "set (fixits_sorted hs) = set hs"
  by (simp add: fixits_sorted_def)

lemma fixits_sorted_distinct: "distinct hs \<Longrightarrow> distinct (fixits_sorted hs)"
  by (simp add: fixits_sorted_def)

lemma fixits_sorted_keys:
  "sorted (map (\<lambda>f. case f of (line_start, col_start, rest) \<Rightarrow> (- line_start, - col_start))
               (fixits_sorted hs))"
  unfolding fixits_sorted_def by (rule sorted_sort_key)

lemma chain_of_sorted:
  assumes "sorted (map (\<lambda>f. case f of (line_start, col_start, rest) \<Rightarrow> (- line_start, - col_start)) xs)"
    and "distinct xs"
    and "\<forall>f\<in>set xs. \<forall>g\<in>set xs. f \<noteq> g \<longrightarrow> apart f g"
    and "\<forall>f\<in>set xs. fst f = l"
  shows "sorted_wrt (\<lambda>f g. fst (snd (snd (snd g))) \<le> fst (snd f)) xs"
  using assms
proof (induction xs)
  case Nil
  then show ?case by simp
next
  case (Cons x xs)
  have "fst (snd (snd (snd g))) \<le> fst (snd x)" if "g \<in> set xs" for g
  proof -
    have "fst x = l" "fst g = l" using Cons.prems(4) that by simp_all
    then obtain cs e ce r cs' e' ce' r' where x: "x = (l, cs, e, ce, r)"
      and g: "g = (l, cs', e', ce', r')"
      by (cases x, cases g) auto
    have "x \<noteq> g" using Cons.prems(2) that by auto
    then have "apart x g" using Cons.prems(3) that by simp
    moreover have "cs' \<le> cs" using Cons.prems(1) that x g by auto
    ultimately show ?thesis using x g by (auto simp: apart_def)
  qed
  moreover have "sorted_wrt (\<lambda>f g. fst (snd (snd (snd g))) \<le> fst (snd f)) xs"
    using Cons.prems by (intro Cons.IH) auto
  ultimately show ?case by simp
qed

lemma spec_no_hints: "spec_apply_hints ls [] = ls"
  by (simp add: spec_apply_hints_def fixits_sorted_def hints_of_line_def map_nth)

lemma in_one_line_simps:
  "in_one_line ls (l, cs, le, ce, r) \<longleftrightarrow>
     l = le \<and> 0 < l \<and> l \<le> int (length ls) \<and> 1 \<le> cs \<and> cs \<le> ce \<and>
     ce \<le> int (length (ls ! (nat l - 1))) + 1"
  by (simp add: in_one_line_def)

lemma line_hints_spec:
  assumes one: "\<forall>h\<in>set hs. in_one_line ls h"
    and dist: "distinct hs"
    and sep: "\<forall>f\<in>set hs. \<forall>g\<in>set hs. f \<noteq> g \<longrightarrow> apart f g"
    and i: "i < length ls"
  shows "fold splice (hints_of_line (fixits_sorted hs) i) (ls ! i) =
         spec_line (ls ! i) (int (length (ls ! i)) + 1) (hints_of_line (fixits_sorted hs) i)"
proof -
  let ?xs = "hints_of_line (fixits_sorted hs) i"
  let ?p = "int (length (ls ! i)) + 1"
  have sub: "set ?xs \<subseteq> set hs" by (auto simp: hints_of_line_def fixits_sorted_set)
  have line: "\<forall>f\<in>set ?xs. fst f = int i + 1" by (simp add: hints_of_line_def)
  have "sorted (map (\<lambda>f. case f of (line_start, col_start, rest) \<Rightarrow> (- line_start, - col_start)) ?xs)"
    unfolding hints_of_line_def by (intro sorted_filter fixits_sorted_keys)
  moreover have "distinct ?xs"
    unfolding hints_of_line_def by (intro distinct_filter fixits_sorted_distinct dist)
  moreover have "\<forall>f\<in>set ?xs. \<forall>g\<in>set ?xs. f \<noteq> g \<longrightarrow> apart f g" using sep sub by blast
  ultimately have chain: "sorted_wrt (\<lambda>f g. fst (snd (snd (snd g))) \<le> fst (snd f)) ?xs"
    using line by (rule chain_of_sorted)
  have bounds: "\<forall>h\<in>set ?xs. 1 \<le> fst (snd h) \<and> fst (snd h) \<le> fst (snd (snd (snd h))) \<and>
                     fst (snd (snd (snd h))) \<le> ?p"
  proof
    fix h assume h: "h \<in> set ?xs"
    obtain l cs le ce r where t: "h = (l, cs, le, ce, r)" by (cases h) auto
    have "l = int i + 1" using line h t by auto
    then have "nat l - 1 = i" by simp
    moreover have "in_one_line ls h" using one sub h by blast
    ultimately show "1 \<le> fst (snd h) \<and> fst (snd h) \<le> fst (snd (snd (snd h))) \<and>
                     fst (snd (snd (snd h))) \<le> ?p"
      unfolding t in_one_line_simps by auto
  qed
  have "fold splice ?xs (take (nat (?p - 1)) (ls ! i) @ []) = spec_line (ls ! i) ?p ?xs @ []"
    by (rule fold_splice_spec [OF chain bounds]) simp_all
  then show ?thesis by simp
qed

text \<open>
  C8 (as amended). The fix-it hints are processed in descending order of start line, then
  start column. Hints that each lie in one line of the text (start line = end line, within
  the text and the line), that are different and do not overlap or share a start, are all
  applied: the result equals replacing each hint's span by its replacement at its original
  coordinates. A hint that spans lines is skipped.
\<close>

theorem fixits_at_original_coordinates:
  assumes "\<forall>h\<in>set hs. in_one_line (split_nl code) h"
    and "distinct hs"
    and "\<forall>f\<in>set hs. \<forall>g\<in>set hs. f \<noteq> g \<longrightarrow> apart f g"
  shows "fst (apply_fixits code hs) = join_nl (spec_apply_hints (split_nl code) hs) \<and>
         sorted_wrt (\<lambda>f g. fst g < fst f \<or> (fst g = fst f \<and> fst (snd g) \<le> fst (snd f)))
           (fixits_sorted hs) \<and>
         (line_start \<noteq> line_end \<longrightarrow>
            apply_fixit (line_start, col_start, line_end, col_end, replacement) st = st)"
proof -
  let ?ls = "split_nl code"
  let ?S = "fixits_sorted hs"
  have res: "fst (apply_fixits code hs) = join_nl (spec_apply_hints ?ls hs)"
  proof (cases "hs = []")
    case True
    then show ?thesis by (simp add: apply_fixits_def spec_no_hints join_split_nl)
  next
    case False
    have "\<forall>h\<in>set ?S. fst h = fst (snd (snd h)) \<and> 0 < fst h \<and> fst h \<le> int (length ?ls)"
    proof
      fix h assume "h \<in> set ?S"
      then have "in_one_line ?ls h" using assms(1) by (simp add: fixits_sorted_set)
      then show "fst h = fst (snd (snd h)) \<and> 0 < fst h \<and> fst h \<le> int (length ?ls)"
        by (cases h) (simp add: in_one_line_def)
    qed
    then have "fst (fold apply_fixit ?S (?ls, False)) =
               map (\<lambda>i. fold splice (hints_of_line ?S i) (?ls ! i)) [0..<length ?ls]"
      by (rule fold_apply_fixit_lines)
    also have "\<dots> = spec_apply_hints ?ls hs"
      unfolding spec_apply_hints_def
      by (rule map_cong [OF refl]) (simp add: line_hints_spec [OF assms])
    finally have "fst (fold apply_fixit ?S (?ls, False)) = spec_apply_hints ?ls hs" .
    then show ?thesis using False
      by (cases "fold apply_fixit ?S (?ls, False)") (simp add: apply_fixits_def)
  qed
  have "sorted_wrt (\<lambda>f g. (case f of (line_start, col_start, rest) \<Rightarrow> (- line_start, - col_start))
                        \<le> (case g of (line_start, col_start, rest) \<Rightarrow> (- line_start, - col_start))) ?S"
    using fixits_sorted_keys [of hs] by (simp add: sorted_map)
  then have order: "sorted_wrt (\<lambda>f g. fst g < fst f \<or> (fst g = fst f \<and> fst (snd g) \<le> fst (snd f))) ?S"
    by (rule sorted_wrt_mono_rel [rotated]) (auto split: prod.splits)
  have skip: "line_start \<noteq> line_end \<longrightarrow>
            apply_fixit (line_start, col_start, line_end, col_end, replacement) st = st"
    by (cases st) (simp add: apply_fixit_def)
  from res order skip show ?thesis by blast
qed

lemma parse_three_hints:
  "parse_gcc_fixits
     (''fix-it:'' @ [CHR 0x22] @ ''t.c'' @ [CHR 0x22] @ '':{1:10-1:10}:'' @ [CHR 0x22] @ '';'' @ [CHR 0x22] @
      ''\<newline>fix-it:'' @ [CHR 0x22] @ ''t.c'' @ [CHR 0x22] @ '':{2:6-2:7}:'' @ [CHR 0x22] @ '', '' @ [CHR 0x22] @
      ''\<newline>fix-it:'' @ [CHR 0x22] @ ''t.c'' @ [CHR 0x22] @ '':{2:9-2:9}:'' @ [CHR 0x22] @ '';'' @ [CHR 0x22]) =
   [(1, 10, 1, 10, '';''), (2, 6, 2, 7, '', ''), (2, 9, 2, 9, '';'')]"
  by (simp add: parse_gcc_fixits_def re_finditer_def fixit_pat_def not_quote_def is_digit_def
      last_or_def int_of_digits_def replace_all_def)

theorem fixits_at_original_coordinates_witness:
  "fst (apply_fixits ''int x = 1\<newline>foo(a b)''
     (parse_gcc_fixits
       (''fix-it:'' @ [CHR 0x22] @ ''t.c'' @ [CHR 0x22] @ '':{1:10-1:10}:'' @ [CHR 0x22] @ '';'' @ [CHR 0x22] @
        ''\<newline>fix-it:'' @ [CHR 0x22] @ ''t.c'' @ [CHR 0x22] @ '':{2:6-2:7}:'' @ [CHR 0x22] @ '', '' @ [CHR 0x22] @
        ''\<newline>fix-it:'' @ [CHR 0x22] @ ''t.c'' @ [CHR 0x22] @ '':{2:9-2:9}:'' @ [CHR 0x22] @ '';'' @ [CHR 0x22])))
   = ''int x = 1;\<newline>foo(a, b);'' \<and>
   apply_fixit (1, 2, 2, 2, ''X'') ([''ab'', ''cd''], False) = ([''ab'', ''cd''], False)"
proof -
  let ?hs = "[(1, 10, 1, 10, '';''), (2, 6, 2, 7, '', ''), (2, 9, 2, 9, '';'')] :: fixit list"
  let ?code = "''int x = 1\<newline>foo(a b)''"
  have sp: "split_nl ?code = [''int x = 1'', ''foo(a b)'']" by simp
  have one: "\<forall>h\<in>set ?hs. in_one_line (split_nl ?code) h" by (simp add: sp in_one_line_def)
  have dist: "distinct ?hs" by simp
  have sep: "\<forall>f\<in>set ?hs. \<forall>g\<in>set ?hs. f \<noteq> g \<longrightarrow> apart f g" by (simp add: apart_def)
  have so: "fixits_sorted ?hs = [(2, 9, 2, 9, '';''), (2, 6, 2, 7, '', ''), (1, 10, 1, 10, '';'')]"
    by (simp add: fixits_sorted_def)
  have spec: "spec_apply_hints [''int x = 1'', ''foo(a b)''] ?hs = [''int x = 1;'', ''foo(a, b);'']"
    by (simp add: spec_apply_hints_def so hints_of_line_def upt_rec [of 0] upt_rec [of 1]
        upt_rec [of 2])
  from fixits_at_original_coordinates [OF one dist sep,
      where line_start = 1 and line_end = 2 and col_start = 2 and col_end = 2 and
        replacement = "''X''" and st = "([''ab'', ''cd''], False)"]
  have "fst (apply_fixits ?code ?hs) = join_nl (spec_apply_hints (split_nl ?code) ?hs)"
    and "apply_fixit (1, 2, 2, 2, ''X'') ([''ab'', ''cd''], False) = ([''ab'', ''cd''], False)"
    by simp_all
  then show ?thesis by (simp only: sp spec parse_three_hints) simp
qed

text \<open>
  C8 (as stated) fails: the hint \<open>fix-it:"t.c":{1:2-2:2}:"X"\<close> is parsed from the compiler
  output and spans two lines; applied at its coordinates to the text \<open>ab\<close>, \<open>cd\<close> it gives
  \<open>aXd\<close>, and \<open>apply_fixits\<close> leaves the text as it is.
\<close>

theorem multi_line_fixit_skipped:
  "parse_gcc_fixits (''fix-it:'' @ [CHR 0x22] @ ''t.c'' @ [CHR 0x22] @ '':{1:2-2:2}:'' @
                     [CHR 0x22] @ ''X'' @ [CHR 0x22]) = [(1, 2, 2, 2, ''X'')] \<and>
   apply_fixits ''ab\<newline>cd'' [(1, 2, 2, 2, ''X'')] = (''ab\<newline>cd'', False) \<and>
   spec_apply_hint (split_nl ''ab\<newline>cd'') (1, 2, 2, 2, ''X'') = ''aXd''"
  by (simp add: parse_gcc_fixits_def re_finditer_def fixit_pat_def not_quote_def is_digit_def
      last_or_def int_of_digits_def replace_all_def apply_fixits_def fixits_sorted_def
      apply_fixit_def spec_apply_hint_def)

end
